theory Spec2Isabelle
  imports Main "HOL-Library.Word" "HOL-Library.AList"
begin

unbundle bit_operations_syntax

section \<open>Common conventions\<close>

text \<open>
  Go's \<open>int\<close> is the 64-bit two's complement integer of the usual targets: it is the type
  \<open>64 word\<close>, read through \<open>sint\<close>; \<open>+\<close>, \<open>-\<close> and \<open><<\<close> wrap, \<open>>>\<close> is the
  arithmetic shift. \<open>int64\<close> is the same type. Loop counters and day indices that only
  count from 0 up to a bound are HOL integers: no operation on them wraps below the bound.

  A run-time panic (nil dereference, index out of range, division by zero, a failed
  \<open>doAssert\<close>) is the left injection of a sum.
\<close>

type_synonym go_int = "64 word"
type_synonym int64 = "64 word"

datatype go_panic =
    NilDereference
  | IndexOutOfRange
  | NegativeLength
  | DivideByZero
  | AssertionFailed

text \<open>Go's \<open>/\<close> and \<open>%\<close> truncate towards zero (the divisor is checked by the caller).\<close>

definition go_quot :: "int \<Rightarrow> int \<Rightarrow> int" where
  "go_quot a b = sgn a * sgn b * (\<bar>a\<bar> div \<bar>b\<bar>)"

definition go_rem :: "int \<Rightarrow> int \<Rightarrow> int" where
  "go_rem a b = sgn a * (\<bar>a\<bar> mod \<bar>b\<bar>)"

lemma go_quot_nonneg: "0 \<le> a \<Longrightarrow> 0 < b \<Longrightarrow> go_quot a b = a div b"
  by (cases "a = 0") (simp_all add: go_quot_def)

lemma go_rem_nonneg: "0 \<le> a \<Longrightarrow> 0 < b \<Longrightarrow> go_rem a b = a mod b"
  by (cases "a = 0") (simp_all add: go_rem_def)

section \<open>Packed provenance (burndown.go)\<close>

definition packPersonWithDay :: "go_int \<Rightarrow> go_int \<Rightarrow> go_int" where
  "packPersonWithDay person day = day OR push_bit 14 person"

definition unpackPersonWithDay :: "go_int \<Rightarrow> go_int \<times> go_int" where
  "unpackPersonWithDay v = (signed_drop_bit 14 v, v AND 0x3FFF)"

lemma small_word_bits:
  fixes w :: go_int
  assumes "0 \<le> sint w" "sint w < 2 ^ k" "k \<le> n"
  shows "\<not> bit w n"
proof -
  have "sint w < 2 ^ 63" using sint_lt[of w] by simp
  hence "take_bit 64 (sint w) = sint w"
    using assms(1) by (simp add: take_bit_int_eq_self)
  hence u: "uint w = sint w"
    using uint_sint[of w] by simp
  have "(2::int) ^ k \<le> 2 ^ n" using assms(3) by simp
  hence "uint w < 2 ^ n" using assms(2) u by linarith
  hence "uint w div 2 ^ n = 0" by simp
  hence "\<not> bit (uint w) n" by (simp add: bit_iff_odd)
  thus ?thesis by (auto simp add: bit_uint_iff dest: bit_imp_le_length)
qed

lemma mask14: "(0x3FFF :: go_int) = mask 14"
  by (simp add: mask_eq_exp_minus_1)

text \<open>
  C9 (as amended). For every author id \<open>a\<close> with \<open>0 \<le> a < 2^49\<close> and every day \<open>d\<close> with
  \<open>0 \<le> d \<le> 16383\<close>, unpacking the packed value gives back \<open>(a, d)\<close>: the day sits in the
  low 14 bits and the author in the 50 bits above. The bound on the author is what the
  left shift by 14 leaves of a 64-bit \<open>int\<close>.
\<close>

theorem pack_unpack_roundtrip:
  assumes "0 \<le> sint a" and "sint a < 2 ^ 49" and "0 \<le> sint d" and "sint d \<le> 16383"
  shows "unpackPersonWithDay (packPersonWithDay a d) = (a, d)"
proof -
  have da: "\<And>n. 14 \<le> n \<Longrightarrow> \<not> bit d n"
    using small_word_bits[of d 14] assms(3,4) by simp
  have aa: "\<And>n. 49 \<le> n \<Longrightarrow> \<not> bit a n"
    using small_word_bits[of a 49] assms(1,2) by simp
  have hi: "signed_drop_bit 14 (d OR push_bit 14 a) = a"
    by (rule bit_word_eqI) (auto simp add: bit_simps da aa)
  have lo: "(d OR push_bit 14 a) AND mask 14 = d"
    by (rule bit_word_eqI) (use da in \<open>auto simp add: bit_simps aa not_le intro: ccontr\<close>)
  show ?thesis
    by (simp add: unpackPersonWithDay_def packPersonWithDay_def hi lo mask14)
qed

theorem pack_unpack_roundtrip_witness:
  "0 \<le> sint (5 :: go_int) \<and> sint (5 :: go_int) < 2 ^ 49 \<and> 0 \<le> sint (16383 :: go_int)
   \<and> sint (16383 :: go_int) \<le> 16383
   \<and> unpackPersonWithDay (packPersonWithDay 5 16383) = (5, 16383)"
  using pack_unpack_roundtrip [of 5 16383] by simp

text \<open>
  C9 as stated fails: the author id \<open>2^49\<close> is non-negative, but shifted by 14 it lands on
  the sign bit and comes back as \<open>-2^49\<close>.
\<close>

theorem pack_unpack_counterexample:
  "0 \<le> sint (2 ^ 49 :: go_int) \<and> 0 \<le> sint (0 :: go_int) \<and> sint (0 :: go_int) \<le> 16383
   \<and> unpackPersonWithDay (packPersonWithDay (2 ^ 49) 0) \<noteq> (2 ^ 49, 0)
   \<and> sint (fst (unpackPersonWithDay (packPersonWithDay (2 ^ 49) 0))) = - (2 ^ 49)"
  by (simp add: unpackPersonWithDay_def packPersonWithDay_def)

section \<open>The global counter (src/unnamed/part_000)\<close>

text \<open>The local \<open>group\<close> of \<open>groupByDay\<close> is written \<open>grp\<close>.\<close>

record globalCounter =
  diffs :: "int \<rightharpoonup> (int \<rightharpoonup> int64)"
  lastDay :: int

definition newGlobalCounter :: globalCounter where
  "newGlobalCounter = \<lparr>diffs = Map.empty, lastDay = 0\<rparr>"

text \<open>\<open>c.diffs[j][i]\<close>: reading a missing key of a Go map gives the zero value.\<close>

definition diffs_at :: "globalCounter \<Rightarrow> int \<Rightarrow> int \<Rightarrow> int64" where
  "diffs_at c j i =
     (case diffs c j of None \<Rightarrow> 0
      | Some m \<Rightarrow> (case m i of None \<Rightarrow> 0 | Some v \<Rightarrow> v))"

definition update :: "globalCounter \<Rightarrow> int \<Rightarrow> int \<Rightarrow> int64 \<Rightarrow> globalCounter" where
  "update c commitDay updateDay delta =
     (let inner = (case diffs c commitDay of None \<Rightarrow> Map.empty | Some m \<Rightarrow> m);
          old = (case inner updateDay of None \<Rightarrow> 0 | Some v \<Rightarrow> v)
      in c\<lparr>diffs := (diffs c)(commitDay \<mapsto> inner(updateDay \<mapsto> old + delta)),
            lastDay := (if commitDay > lastDay c then commitDay else lastDay c)\<rparr>)"

text \<open>The inner loop of \<open>groupByDay\<close>: \<open>for j := 0; j < day; j++ { group += c.diffs[j][i] }\<close>.\<close>

function sumCommits :: "globalCounter \<Rightarrow> int \<Rightarrow> int \<Rightarrow> int \<Rightarrow> int64 \<Rightarrow> int64" where
  "sumCommits c day i j grp =
     (if j < day then sumCommits c day i (j + 1) (grp + diffs_at c j i) else grp)"
  by pat_completeness auto
termination
  by (relation "measure (\<lambda>(c, day, i, j, grp). nat (day - j))") auto

declare sumCommits.simps [simp del]

text \<open>The outer loop of \<open>groupByDay\<close>, over the introduction days \<open>i\<close>.\<close>

function groupLoop ::
  "globalCounter \<Rightarrow> int \<Rightarrow> int \<Rightarrow> int \<Rightarrow> int64 list \<Rightarrow> int64 \<Rightarrow> go_panic + (int64 list \<times> int64)" where
  "groupLoop c granularity day i status grp =
     (if i < day then
        (let grp' = sumCommits c day i 0 grp in
         if go_rem i granularity = granularity - 1 then
           (let idx = go_quot i granularity in
            if 0 \<le> idx \<and> idx < int (length status)
            then groupLoop c granularity day (i + 1) (status[nat idx := grp']) 0
            else Inl IndexOutOfRange)
         else groupLoop c granularity day (i + 1) status grp')
      else Inr (status, grp))"
  by pat_completeness auto
termination
  by (relation "measure (\<lambda>(c, granularity, day, i, status, grp). nat (day - i))") auto

declare groupLoop.simps [simp del]

definition groupByDay :: "globalCounter \<Rightarrow> int \<Rightarrow> int \<Rightarrow> go_panic + int64 list" where
  "groupByDay c granularity0 day =
     (let granularity = (if granularity0 = 0 then 1 else granularity0);
          adjust = (if go_rem day granularity \<noteq> 0 then 1 else 0);
          n = go_quot day granularity + adjust
      in if n < 0 then Inl NegativeLength
         else (case groupLoop c granularity day 0 (replicate (nat n) 0) 0 of
                 Inl e \<Rightarrow> Inl e
               | Inr (status, grp) \<Rightarrow>
                   if go_rem day granularity \<noteq> 0
                   then (if length status = 0 then Inl IndexOutOfRange
                         else Inr (status[length status - 1 := grp]))
                   else Inr status))"

text \<open>The loop of \<open>matrix\<close> over the days up to \<open>lastDay\<close>.\<close>

function matrixLoop ::
  "globalCounter \<Rightarrow> int \<Rightarrow> int \<Rightarrow> int \<Rightarrow> int \<Rightarrow> int64 list list \<Rightarrow> go_panic + int64 list list" where
  "matrixLoop c sampling granularity day previousDay result =
     (if day \<le> lastDay c then
        (if sampling = 0 then Inl DivideByZero
         else (let delta = go_quot day sampling - go_quot previousDay sampling in
               if delta > 0 then
                 (case groupByDay c granularity day of
                    Inl e \<Rightarrow> Inl e
                  | Inr status \<Rightarrow>
                      matrixLoop c sampling granularity (day + 1) day
                        (result @ replicate (nat delta) status))
               else matrixLoop c sampling granularity (day + 1) previousDay result))
      else Inr result)"
  by pat_completeness auto
termination
  by (relation "measure (\<lambda>(c, sampling, granularity, day, previousDay, result). nat (lastDay c + 1 - day))") auto

declare matrixLoop.simps [simp del]

definition matrix :: "globalCounter \<Rightarrow> int \<Rightarrow> int \<Rightarrow> go_panic + int64 list list" where
  "matrix c sampling granularity =
     (case matrixLoop c sampling granularity 0 0 [] of
        Inl e \<Rightarrow> Inl e
      | Inr result \<Rightarrow>
          (case groupByDay c granularity (lastDay c + 1) of
             Inl e \<Rightarrow> Inl e
           | Inr status \<Rightarrow> Inr (result @ [status])))"


lemma div_mult_le: "0 < g \<Longrightarrow> g * (i div g) \<le> (i::int)"
  using pos_mod_sign[of g i] mult_div_mod_eq[of g i] by linarith

lemma div_succ_full:
  fixes i g :: int
  assumes "0 < g" "i mod g = g - 1"
  shows "i + 1 = g * (i div g + 1)" and "(i + 1) div g = i div g + 1"
proof -
  have "g * (i div g + 1) = g * (i div g) + g" by (simp add: algebra_simps)
  thus a: "i + 1 = g * (i div g + 1)"
    using assms(2) mult_div_mod_eq[of g i] by linarith
  show "(i + 1) div g = i div g + 1"
    using assms(1) by (subst a) simp
qed

lemma div_succ_part:
  fixes i g :: int
  assumes "0 < g" "i mod g \<noteq> g - 1"
  shows "(i + 1) div g = i div g"
proof (rule int_div_pos_eq[where r = "i mod g + 1"])
  show "i + 1 = g * (i div g) + (i mod g + 1)" by simp
  show "0 \<le> i mod g + 1" using pos_mod_sign[of g i] assms(1) by linarith
  show "i mod g + 1 < g" using pos_mod_bound[of g i] assms by linarith
qed

lemma div_lt_ceil:
  fixes i g d :: int
  assumes "0 < g" "i < d"
  shows "i div g < (d + g - 1) div g"
proof -
  have "i div g \<le> (d - 1) div g" using assms by (intro zdiv_mono1) auto
  moreover have "(d - 1 + g) div g = (d - 1) div g + 1"
    using assms(1) by (simp add: div_add_self2)
  moreover have "d - 1 + g = d + g - 1" by simp
  ultimately show ?thesis by simp
qed

lemma ceil_exact:
  fixes g d :: int
  assumes "0 < g" "d mod g = 0"
  shows "(d + g - 1) div g = d div g"
proof (rule int_div_pos_eq[where r = "g - 1"])
  show "d + g - 1 = g * (d div g) + (g - 1)" using assms(2) mult_div_mod_eq[of g d] by linarith
  show "0 \<le> g - 1" using assms(1) by simp
  show "g - 1 < g" by simp
qed

lemma ceil_inexact:
  fixes g d :: int
  assumes "0 < g" "d mod g \<noteq> 0"
  shows "(d + g - 1) div g = d div g + 1"
proof (rule int_div_pos_eq[where r = "d mod g - 1"])
  have "g * (d div g + 1) = g * (d div g) + g" by (simp add: algebra_simps)
  thus "d + g - 1 = g * (d div g + 1) + (d mod g - 1)" using mult_div_mod_eq[of g d] by linarith
  show "0 \<le> d mod g - 1" using assms pos_mod_sign[of g d] by linarith
  show "d mod g - 1 < g" using pos_mod_bound[of g d] assms(1) by linarith
qed


lemma sumCommits_eq:
  "sumCommits c day i j grp = grp + (\<Sum>k\<in>{j..<day}. diffs_at c k i)"
proof (induction c day i j grp rule: sumCommits.induct)
  case (1 c day i j grp)
  show ?case
  proof (cases "j < day")
    case True
    have "{j..<day} = insert j {j + 1..<day}" using True by auto
    hence "(\<Sum>k\<in>{j..<day}. diffs_at c k i) = diffs_at c j i + (\<Sum>k\<in>{j + 1..<day}. diffs_at c k i)"
      by simp
    with 1 True show ?thesis
      by (subst sumCommits.simps) (simp add: add.assoc)
  next
    case False
    thus ?thesis by (subst sumCommits.simps) simp
  qed
qed

text \<open>The cumulative line count of introduction day \<open>i\<close> after the commits before day \<open>d\<close>.\<close>

definition alive :: "globalCounter \<Rightarrow> int \<Rightarrow> int \<Rightarrow> int64" where
  "alive c d i = (\<Sum>k\<in>{0..<d}. diffs_at c k i)"

text \<open>The \<open>j\<close>-th band of the row of day \<open>d\<close>, cut off at \<open>d\<close>.\<close>

definition band :: "globalCounter \<Rightarrow> int \<Rightarrow> int \<Rightarrow> nat \<Rightarrow> int64" where
  "band c g d j = (\<Sum>i\<in>{int j * g..<min ((int j + 1) * g) d}. alive c d i)"

fun groupInv :: "globalCounter \<Rightarrow> int \<Rightarrow> int \<Rightarrow> nat \<Rightarrow> int \<Rightarrow> int64 list \<Rightarrow> int64 \<Rightarrow> bool" where
  "groupInv c g d n i status grp \<longleftrightarrow>
     length status = n \<and>
     (\<forall>j. int j < i div g \<longrightarrow> j < n \<and> status ! j = band c g d j) \<and>
     grp = (\<Sum>i'\<in>{g * (i div g)..<i}. alive c d i')"

declare groupInv.simps [simp del]

lemma groupInv_full:
  assumes g: "0 < g" and i: "0 \<le> i" "i < d" and n: "n = nat ((d + g - 1) div g)"
    and full: "i mod g = g - 1"
    and inv: "groupInv c g d n i status grp"
  shows "groupInv c g d n (i + 1) (status[nat (i div g) := sumCommits c d i 0 grp]) 0"
    and "0 \<le> i div g" and "i div g < int (length status)"
proof -
  let ?idx = "i div g"
  let ?grp' = "sumCommits c d i 0 grp"
  have len: "length status = n" using inv by (simp add: groupInv.simps)
  show idx_ge: "0 \<le> ?idx" using g i by (simp add: pos_imp_zdiv_nonneg_iff)
  have "?idx < (d + g - 1) div g" using div_lt_ceil[OF g i(2)] .
  thus idx_lt: "?idx < int (length status)" using n len by simp
  have i1: "i + 1 = g * (?idx + 1)" and div1: "(i + 1) div g = ?idx + 1"
    using div_succ_full[OF g full] by simp_all
  have "{g * ?idx..<i + 1} = insert i {g * ?idx..<i}"
    using div_mult_le[OF g, of i] by auto
  hence grp': "?grp' = (\<Sum>i'\<in>{g * ?idx..<i + 1}. alive c d i')"
    using inv by (simp add: sumCommits_eq groupInv.simps alive_def add.commute)
  have bandidx: "band c g d (nat ?idx) = ?grp'"
  proof -
    have nn: "int (nat ?idx) = ?idx" using idx_ge by simp
    have "(?idx + 1) * g = i + 1" using i1 by (simp add: mult.commute)
    moreover have "i + 1 \<le> d" using i by simp
    ultimately have m: "min ((?idx + 1) * g) d = i + 1" by simp
    have lo: "?idx * g = g * ?idx" by (simp add: mult.commute)
    show ?thesis unfolding band_def nn m lo grp' ..
  qed
  show "groupInv c g d n (i + 1) (status[nat ?idx := ?grp']) 0"
    unfolding groupInv.simps
  proof (intro conjI allI impI)
    show "length (status[nat ?idx := ?grp']) = n" using len by simp
  next
    fix j assume "int j < (i + 1) div g"
    hence jle: "int j \<le> ?idx" using div1 by simp
    thus "j < n" using idx_lt len by simp
    show "status[nat ?idx := ?grp'] ! j = band c g d j"
    proof (cases "int j = ?idx")
      case True
      hence "j = nat ?idx" by simp
      moreover have "nat ?idx < length status" using idx_lt idx_ge by linarith
      ultimately show ?thesis using bandidx by simp
    next
      case False
      hence lt: "int j < ?idx" using jle by simp
      hence "j \<noteq> nat ?idx" by auto
      thus ?thesis using inv lt by (simp add: groupInv.simps)
    qed
  next
    show "(0::int64) = (\<Sum>i'\<in>{g * ((i + 1) div g)..<i + 1}. alive c d i')"
      using div1 i1 by simp
  qed
qed

lemma groupInv_part:
  assumes g: "0 < g" and i: "0 \<le> i" "i < d"
    and part: "i mod g \<noteq> g - 1"
    and inv: "groupInv c g d n i status grp"
  shows "groupInv c g d n (i + 1) status (sumCommits c d i 0 grp)"
proof -
  have div1: "(i + 1) div g = i div g" using div_succ_part[OF g part] .
  have "{g * (i div g)..<i + 1} = insert i {g * (i div g)..<i}"
    using div_mult_le[OF g, of i] by auto
  hence "sumCommits c d i 0 grp = (\<Sum>i'\<in>{g * (i div g)..<i + 1}. alive c d i')"
    using inv by (simp add: sumCommits_eq groupInv.simps alive_def add.commute)
  thus ?thesis using inv div1 by (simp add: groupInv.simps)
qed

lemma groupLoop_inv:
  assumes "0 < g" "0 \<le> i" "i \<le> d" "n = nat ((d + g - 1) div g)"
    and "groupInv c g d n i status grp"
  shows "\<exists>status' grp'. groupLoop c g d i status grp = Inr (status', grp')
           \<and> groupInv c g d n d status' grp'"
  using assms
proof (induction c g d i status grp rule: groupLoop.induct)
  case (1 c g d i status grp)
  show ?case
  proof (cases "i < d")
    case False
    hence "i = d" using 1 by simp
    thus ?thesis using 1 by (subst groupLoop.simps) simp
  next
    case True
    note lt = True
    show ?thesis
    proof (cases "i mod g = g - 1")
      case True
      note f = groupInv_full[OF "1.prems"(1) "1.prems"(2) lt "1.prems"(4) True "1.prems"(5)]
      have rem: "go_rem i g = g - 1" using True "1.prems" by (simp add: go_rem_nonneg)
      have quot: "go_quot i g = i div g" using "1.prems" by (simp add: go_quot_nonneg)
      have step: "groupLoop c g d i status grp
            = groupLoop c g d (i + 1) (status[nat (i div g) := sumCommits c d i 0 grp]) 0"
        using lt rem quot f(2,3) by (subst groupLoop.simps) (simp add: Let_def)
      have "\<exists>status' grp'. groupLoop c g d (i + 1) (status[nat (go_quot i g) := sumCommits c d i 0 grp]) 0
              = Inr (status', grp') \<and> groupInv c g d n d status' grp'"
      proof (rule "1.IH"(1)[OF lt refl _ refl])
        show "go_rem i g = g - 1" by (rule rem)
        show "0 \<le> go_quot i g \<and> go_quot i g < int (length status)" using f(2,3) quot by simp
        show "0 < g" by fact
        show "0 \<le> i + 1" using "1.prems" by simp
        show "i + 1 \<le> d" using lt by simp
        show "n = nat ((d + g - 1) div g)" by fact
        show "groupInv c g d n (i + 1) (status[nat (go_quot i g) := sumCommits c d i 0 grp]) 0"
          using f(1) quot by simp
      qed
      thus ?thesis using step quot by simp
    next
      case False
      note p = groupInv_part[OF "1.prems"(1) "1.prems"(2) lt False "1.prems"(5)]
      have rem: "go_rem i g \<noteq> g - 1" using False "1.prems" by (simp add: go_rem_nonneg)
      have step: "groupLoop c g d i status grp
            = groupLoop c g d (i + 1) status (sumCommits c d i 0 grp)"
        using lt rem by (subst groupLoop.simps) (simp add: Let_def)
      have "\<exists>status' grp'. groupLoop c g d (i + 1) status (sumCommits c d i 0 grp)
              = Inr (status', grp') \<and> groupInv c g d n d status' grp'"
      proof (rule "1.IH"(2)[OF lt refl rem])
        show "0 < g" by fact
        show "0 \<le> i + 1" using "1.prems" by simp
        show "i + 1 \<le> d" using lt by simp
        show "n = nat ((d + g - 1) div g)" by fact
        show "groupInv c g d n (i + 1) status (sumCommits c d i 0 grp)" by (rule p)
      qed
      thus ?thesis using step by simp
    qed
  qed
qed


lemma groupInv_start:
  "groupInv c g d n 0 (replicate n 0) 0"
  by (simp add: groupInv.simps)

text \<open>
  C2 (as amended). For every counter state, every granularity \<open>g \<ge> 1\<close> and every day
  \<open>d \<ge> 0\<close>, \<open>groupByDay\<close> returns (it does not panic) a row of width \<open>\<lceil>d/g\<rceil>\<close> whose
  \<open>j\<close>-th band is the sum, over the introduction days \<open>i\<close> of \<open>[j*g, min((j+1)*g, d))\<close>,
  of the sum over the commit days \<open>k\<close> of \<open>[0, d)\<close> of \<open>diffs[k][i]\<close>, in \<open>int64\<close>
  arithmetic: the last band stops at day \<open>d\<close>.
\<close>

theorem groupByDay_bands:
  assumes "1 \<le> g" and "0 \<le> d"
  shows "\<exists>row. groupByDay c g d = Inr row
           \<and> int (length row) = (d + g - 1) div g
           \<and> (\<forall>j < length row. row ! j =
                 (\<Sum>i\<in>{int j * g..<min ((int j + 1) * g) d}. \<Sum>k\<in>{0..<d}. diffs_at c k i))"
proof -
  have g: "0 < g" "g \<noteq> 0" using assms(1) by simp_all
  define n where "n = nat ((d + g - 1) div g)"
  have ceil_ge: "0 \<le> (d + g - 1) div g"
    using g assms(2) by (simp add: pos_imp_zdiv_nonneg_iff)
  have quot: "go_quot d g = d div g" using assms(2) g by (simp add: go_quot_nonneg)
  have rem: "go_rem d g = d mod g" using assms(2) g by (simp add: go_rem_nonneg)
  have len: "go_quot d g + (if go_rem d g \<noteq> 0 then 1 else 0) = (d + g - 1) div g"
    using ceil_exact[OF g(1), of d] ceil_inexact[OF g(1), of d] by (simp add: quot rem)
  obtain status grp where run: "groupLoop c g d 0 (replicate n 0) 0 = Inr (status, grp)"
    and inv: "groupInv c g d n d status grp"
    using groupLoop_inv[OF g(1) order_refl assms(2) n_def groupInv_start] by blast
  have slen: "length status = n" using inv by (simp add: groupInv.simps)
  have sband: "\<And>j. int j < d div g \<Longrightarrow> j < n \<and> status ! j = band c g d j"
    using inv by (simp add: groupInv.simps)
  have sgrp: "grp = (\<Sum>i'\<in>{g * (d div g)..<d}. alive c d i')"
    using inv by (simp add: groupInv.simps)
  show ?thesis
  proof (cases "d mod g = 0")
    case True
    have nd: "n = nat (d div g)" using ceil_exact[OF g(1) True] by (simp add: n_def)
    have "0 \<le> d div g" using ceil_exact[OF g(1) True] ceil_ge by simp
    hence res: "groupByDay c g d = Inr status"
      using run g True nd
      by (simp add: groupByDay_def Let_def quot rem)
    have "\<And>j. j < n \<Longrightarrow> status ! j = band c g d j" using sband nd by simp
    thus ?thesis using res slen ceil_ge
      by (auto simp add: band_def alive_def n_def)
  next
    case False
    have ne: "n = nat (d div g) + 1" and dd: "0 \<le> d div g"
      using ceil_inexact[OF g(1) False] assms(2) g
      by (simp_all add: n_def pos_imp_zdiv_nonneg_iff nat_add_distrib)
    have "nat (d div g + 1) = n" using ne dd by simp
    moreover have "status \<noteq> []" using slen ne by auto
    ultimately have res: "groupByDay c g d = Inr (status[n - 1 := grp])"
      using run g False slen dd
      by (simp add: groupByDay_def Let_def quot rem)
    have last: "band c g d (n - 1) = grp"
    proof -
      have nn: "int (n - 1) = d div g" using ne dd by simp
      have "(d div g + 1) * g = g * (d div g) + g" by (simp add: algebra_simps)
      hence "d < (d div g + 1) * g"
        using pos_mod_bound[OF g(1), of d] mult_div_mod_eq[of g d] by linarith
      hence m: "min ((d div g + 1) * g) d = d" by simp
      have lo: "d div g * g = g * (d div g)" by (simp add: mult.commute)
      show ?thesis unfolding band_def nn m lo sgrp ..
    qed
    have "\<And>j. j < n \<Longrightarrow> (status[n - 1 := grp]) ! j = band c g d j"
    proof -
      fix j assume j: "j < n"
      show "(status[n - 1 := grp]) ! j = band c g d j"
      proof (cases "j = n - 1")
        case True
        thus ?thesis using last slen j by simp
      next
        case False
        hence "int j < d div g" using j ne dd by linarith
        thus ?thesis using sband False by simp
      qed
    qed
    thus ?thesis using res slen ceil_ge
      by (auto simp add: band_def alive_def n_def)
  qed
qed

text \<open>A counter with two updates of commit day 0: 7 lines of day 0 and 5 lines of day 1.\<close>

definition counter_0_1 :: globalCounter where
  "counter_0_1 = update (update newGlobalCounter 0 1 5) 0 0 7"

lemma groupLoop_done: "\<not> i < day \<Longrightarrow> groupLoop c g day i status grp = Inr (status, grp)"
  by (subst groupLoop.simps) simp

theorem groupByDay_bands_witness:
  "(1::int) \<le> 2 \<and> (0::int) \<le> 3
   \<and> (\<exists>row. groupByDay counter_0_1 2 3 = Inr row \<and> int (length row) = 2
        \<and> row ! 0 = (\<Sum>i\<in>{0..<2}. \<Sum>k\<in>{0..<3}. diffs_at counter_0_1 k i)
        \<and> row ! 1 = (\<Sum>i\<in>{2..<3}. \<Sum>k\<in>{0..<3}. diffs_at counter_0_1 k i))"
proof -
  obtain row where r: "groupByDay counter_0_1 2 3 = Inr row"
    and l: "int (length row) = (3 + 2 - 1) div 2"
    and b: "\<forall>j < length row. row ! j =
                 (\<Sum>i\<in>{int j * 2..<min ((int j + 1) * 2) 3}. \<Sum>k\<in>{0..<3}. diffs_at counter_0_1 k i)"
    using groupByDay_bands [of 2 3 counter_0_1] by auto
  have l2: "length row = 2" using l by simp
  have "row ! 0 = (\<Sum>i\<in>{0..<2}. \<Sum>k\<in>{0..<3}. diffs_at counter_0_1 k i)"
    using b l2 by auto
  moreover have "row ! 1 = (\<Sum>i\<in>{2..<3}. \<Sum>k\<in>{0..<3}. diffs_at counter_0_1 k i)"
    using b l2 by auto
  ultimately show ?thesis using r l2 by simp
qed

text \<open>
  C2 as stated fails where a band reaches past day \<open>d\<close>: with \<open>diffs[0][1] = 5\<close>,
  granularity 2 and day 1 the only band is 0 (the loop stops at introduction day 0),
  while the sum over the whole band \<open>[0, 2)\<close> of the claim is 5.
\<close>

theorem groupByDay_counterexample:
  "groupByDay (update newGlobalCounter 0 1 5) 2 1 = Inr [0]
   \<and> (\<Sum>i\<in>{0 * 2..<(0 + 1) * 2}. \<Sum>k\<in>{0..<1}. diffs_at (update newGlobalCounter 0 1 5) k i) = (5::int64)
   \<and> [0::int64] ! 0 \<noteq> (\<Sum>i\<in>{0 * 2..<(0 + 1) * 2}. \<Sum>k\<in>{0..<1}. diffs_at (update newGlobalCounter 0 1 5) k i)"
proof -
  have s2: "{0..<2::int} = {0, 1}" by auto
  have s1: "{0..<1::int} = {0}" by auto
  have v: "(\<Sum>i\<in>{0 * 2..<(0 + 1) * 2}. \<Sum>k\<in>{0..<1}. diffs_at (update newGlobalCounter 0 1 5) k i) = (5::int64)"
    by (simp add: s1 s2 diffs_at_def update_def newGlobalCounter_def)
  have "sumCommits (update newGlobalCounter 0 1 5) 1 0 0 0 = 0"
    by (simp add: sumCommits_eq s1 diffs_at_def update_def newGlobalCounter_def)
  hence "groupLoop (update newGlobalCounter 0 1 5) 2 1 0 [0] 0 = Inr ([0], 0)"
    by (subst groupLoop.simps) (simp add: go_rem_def go_quot_def groupLoop_done)
  hence "groupByDay (update newGlobalCounter 0 1 5) 2 1 = Inr [0]"
    by (simp add: groupByDay_def go_rem_def go_quot_def)
  thus ?thesis using v by simp
qed

section \<open>Snapshots and the change merger (change_merger.go)\<close>

text \<open>
  A \<open>*File\<close> is an address or nil. A snapshot \<open>map[string]*File\<close> is an association list
  with at most one entry per path. The \<open>File\<close> objects themselves (file.go is not among
  the sources) live in a world \<open>'w\<close>, the mutable state outside the snapshot at hand: every
  operation that may touch it takes the world and returns the new one, also when it
  fails.
\<close>

type_synonym file_ptr = "nat option"
type_synonym snapshot = "(string \<times> file_ptr) list"

text \<open>\<open>m[k]\<close>: nil for a missing key. \<open>_, exists := m[k]\<close>.\<close>

definition lookup :: "snapshot \<Rightarrow> string \<Rightarrow> file_ptr" where
  "lookup m k = (case map_of m k of None \<Rightarrow> None | Some p \<Rightarrow> p)"

definition has_key :: "snapshot \<Rightarrow> string \<Rightarrow> bool" where
  "has_key m k = (map_of m k \<noteq> None)"

text \<open>
  A tree change as the merger reads it: the action (\<open>change.Action()\<close>; anything but the
  three actions of merkletrie is \<open>OtherAction\<close>), the two names and the two blob hashes.
\<close>

datatype action = Insert | Delete | Modify | OtherAction

record change =
  Action :: action
  From_Name :: string
  From_Hash :: nat
  To_Name :: string
  To_Hash :: nat

datatype burndown_error =
    BlobError
  | NotFoundInSideFiles string
  | FileDoesNotExist string
  | UnknownAction
  | ModificationError
  | NotProcessed string string
  | TooManyParents

datatype fault = Panicked go_panic | Failed burndown_error

record changeMerger =
  files :: snapshot
  sideFiles :: snapshot

text \<open>
  \<open>processChange\<close>. Two parts of it are not in the sources and are parameters:
  \<open>isBinary\<close>, applied to the blob the cache holds for a hash, and the operations on
  \<open>File\<close> that \<open>handleModification\<close> calls (the whole function is the parameter).
\<close>

definition processChange ::
  "(nat \<Rightarrow> fault + bool)
   \<Rightarrow> ('w \<Rightarrow> changeMerger \<Rightarrow> string \<Rightarrow> string \<Rightarrow> 'w \<times> (fault + changeMerger))
   \<Rightarrow> 'w \<Rightarrow> changeMerger \<Rightarrow> change \<Rightarrow> 'w \<times> (fault + changeMerger)" where
  "processChange isBinary handleModification w p ch =
     (let nameTo = To_Name ch; nameFrom = From_Name ch in
      case Action ch of
        Insert \<Rightarrow>
          (case isBinary (To_Hash ch) of
             Inl err \<Rightarrow> (w, Inl err)
           | Inr b \<Rightarrow>
               if b then (w, Inr p)
               else if lookup (sideFiles p) nameTo = None
               then (w, Inl (Failed (NotFoundInSideFiles nameTo)))
               else (w, Inr (p\<lparr>files :=
                      AList.update nameTo (lookup (sideFiles p) nameTo) (files p)\<rparr>)))
      | Delete \<Rightarrow>
          (case isBinary (From_Hash ch) of
             Inl err \<Rightarrow> (w, Inl err)
           | Inr b \<Rightarrow>
               if b then (w, Inr p)
               else if \<not> has_key (files p) nameFrom
               then (w, Inl (Failed (FileDoesNotExist nameFrom)))
               else (w, Inr (p\<lparr>files := AList.delete nameFrom (files p)\<rparr>)))
      | Modify \<Rightarrow>
          (case isBinary (To_Hash ch) of
             Inl err \<Rightarrow> (w, Inl err)
           | Inr b \<Rightarrow>
               if b then (w, Inr p)
               else handleModification w p nameFrom nameTo)
      | OtherAction \<Rightarrow> (w, Inl (Failed UnknownAction)))"

text \<open>\<open>Process\<close>: the first error ends the loop and is returned.\<close>

fun Process ::
  "(nat \<Rightarrow> fault + bool)
   \<Rightarrow> ('w \<Rightarrow> changeMerger \<Rightarrow> string \<Rightarrow> string \<Rightarrow> 'w \<times> (fault + changeMerger))
   \<Rightarrow> 'w \<Rightarrow> changeMerger \<Rightarrow> change list \<Rightarrow> 'w \<times> (fault + snapshot)" where
  "Process isBinary handleModification w p [] = (w, Inr (files p))"
| "Process isBinary handleModification w p (ch # changes) =
     (case processChange isBinary handleModification w p ch of
        (w', Inl err) \<Rightarrow> (w', Inl err)
      | (w', Inr p') \<Rightarrow> Process isBinary handleModification w' p' changes)"


text \<open>
  C7 (as amended). For an Insert change of a non-binary blob at path \<open>to\<close>: if
  \<open>sideFiles[to]\<close> holds a file, \<open>processChange\<close> succeeds, that very pointer is what
  \<open>files[to]\<close> holds afterwards, and neither the world (no \<open>File\<close> is created) nor
  \<open>sideFiles\<close> changes; if \<open>sideFiles[to]\<close> is absent, \<open>processChange\<close> returns the error
  "file not found in side files", and \<open>Process\<close> returns that error at once, whatever
  changes follow: the commit is aborted.
\<close>

theorem merger_insert:
  assumes "Action ch = Insert" and "isBinary (To_Hash ch) = Inr False"
  shows "(lookup (sideFiles p) (To_Name ch) = Some f \<longrightarrow>
            (\<exists>p'. processChange isBinary handleModification w p ch = (w, Inr p')
                  \<and> lookup (files p') (To_Name ch) = Some f
                  \<and> sideFiles p' = sideFiles p))
       \<and> (lookup (sideFiles p) (To_Name ch) = None \<longrightarrow>
            processChange isBinary handleModification w p ch
              = (w, Inl (Failed (NotFoundInSideFiles (To_Name ch))))
            \<and> Process isBinary handleModification w p (ch # changes)
              = (w, Inl (Failed (NotFoundInSideFiles (To_Name ch)))))"
proof (intro conjI impI)
  assume f: "lookup (sideFiles p) (To_Name ch) = Some f"
  let ?p' = "p\<lparr>files := AList.update (To_Name ch) (Some f) (files p)\<rparr>"
  have "processChange isBinary handleModification w p ch = (w, Inr ?p')"
    using assms f by (simp add: processChange_def)
  moreover have "lookup (files ?p') (To_Name ch) = Some f"
    by (simp add: lookup_def update_conv')
  ultimately show "\<exists>p'. processChange isBinary handleModification w p ch = (w, Inr p')
      \<and> lookup (files p') (To_Name ch) = Some f \<and> sideFiles p' = sideFiles p"
    by simp
next
  assume n: "lookup (sideFiles p) (To_Name ch) = None"
  show 1: "processChange isBinary handleModification w p ch
      = (w, Inl (Failed (NotFoundInSideFiles (To_Name ch))))"
    using assms n by (simp add: processChange_def)
  show "Process isBinary handleModification w p (ch # changes)
      = (w, Inl (Failed (NotFoundInSideFiles (To_Name ch))))"
    by (simp add: 1)
qed

text \<open>An Insert change of the path \<open>a\<close>, and a modification hook that does nothing.\<close>

definition insert_a :: change where
  "insert_a = \<lparr>Action = Insert, From_Name = [], From_Hash = 0, To_Name = ''a'', To_Hash = 1\<rparr>"

definition no_modification :: "unit \<Rightarrow> changeMerger \<Rightarrow> string \<Rightarrow> string \<Rightarrow> unit \<times> (fault + changeMerger)" where
  "no_modification w p nameFrom nameTo = (w, Inr p)"

theorem merger_insert_witness:
  "Action insert_a = Insert \<and> (Inr False :: fault + bool) = Inr False
   \<and> lookup (sideFiles \<lparr>files = [], sideFiles = [(''a'', Some 7)]\<rparr>) (To_Name insert_a) = Some 7
   \<and> (\<exists>p'. processChange (\<lambda>h. Inr False) no_modification ()
               \<lparr>files = [], sideFiles = [(''a'', Some 7)]\<rparr> insert_a = ((), Inr p')
          \<and> lookup (files p') (To_Name insert_a) = Some 7
          \<and> sideFiles p' = [(''a'', Some 7)])
   \<and> lookup (sideFiles \<lparr>files = [], sideFiles = []\<rparr>) (To_Name insert_a) = None
   \<and> processChange (\<lambda>h. Inr False) no_modification () \<lparr>files = [], sideFiles = []\<rparr> insert_a
        = ((), Inl (Failed (NotFoundInSideFiles ''a'')))
   \<and> Process (\<lambda>h. Inr False) no_modification () \<lparr>files = [], sideFiles = []\<rparr> [insert_a, insert_a]
        = ((), Inl (Failed (NotFoundInSideFiles ''a'')))"
proof -
  have a: "Action insert_a = Insert" and n: "To_Name insert_a = ''a''"
    by (simp_all add: insert_a_def)
  have b: "(\<lambda>h. Inr False :: fault + bool) (To_Hash insert_a) = Inr False" by simp
  have s: "lookup (sideFiles \<lparr>files = [], sideFiles = [(''a'', Some 7)]\<rparr>) (To_Name insert_a) = Some 7"
    by (simp add: lookup_def n)
  have e: "lookup (sideFiles \<lparr>files = [], sideFiles = []\<rparr>) (To_Name insert_a) = None"
    by (simp add: lookup_def)
  show ?thesis
    using merger_insert [OF a b, of "\<lparr>files = [], sideFiles = [(''a'', Some 7)]\<rparr>" 7 no_modification "()" "[insert_a]"]
      merger_insert [OF a b, of "\<lparr>files = [], sideFiles = []\<rparr>" 7 no_modification "()" "[insert_a]"]
      s e a
    by (simp add: n)
qed

text \<open>
  C7 as stated fails in its second half: with no side file at \<open>to\<close> the change is not
  skipped (a skip would return no error and go on to the next change); the error ends
  \<open>Process\<close>.
\<close>

theorem merger_insert_counterexample:
  "lookup (sideFiles \<lparr>files = [], sideFiles = []\<rparr>) (To_Name insert_a) = None
   \<and> snd (processChange (\<lambda>h. Inr False) no_modification () \<lparr>files = [], sideFiles = []\<rparr> insert_a)
        \<noteq> Inr \<lparr>files = [], sideFiles = []\<rparr>
   \<and> snd (processChange (\<lambda>h. Inr False) no_modification () \<lparr>files = [], sideFiles = []\<rparr> insert_a)
        = Inl (Failed (NotFoundInSideFiles ''a''))
   \<and> snd (Process (\<lambda>h. Inr False) no_modification () \<lparr>files = [], sideFiles = []\<rparr> [insert_a])
        = Inl (Failed (NotFoundInSideFiles ''a''))"
  by (simp add: processChange_def insert_a_def lookup_def)

section \<open>The analysis and its result (burndown.go)\<close>

text \<open>
  The fields of \<open>BurndownAnalysis\<close> that the global history and the snapshots are
  computed from; \<open>files\<close> is the store of the snapshots, by commit hash.
  \<open>updateStatus\<close> is the callback of the global status: it unpacks the day of the
  previous value and updates the global counter under the current commit day.
\<close>

record BurndownAnalysis =
  Granularity :: int
  Sampling :: int
  globalStatus :: globalCounter
  files :: "string \<rightharpoonup> snapshot"
  commitDay :: int

definition updateStatus :: "BurndownAnalysis \<Rightarrow> go_int \<Rightarrow> int64 \<Rightarrow> BurndownAnalysis" where
  "updateStatus analyser previousValue delta =
     (let previousTime = snd (unpackPersonWithDay previousValue)
      in analyser\<lparr>globalStatus :=
           update (globalStatus analyser) (commitDay analyser) (sint previousTime) delta\<rparr>)"

text \<open>The \<open>GlobalHistory\<close> field of the result of \<open>Finalize\<close>.\<close>

definition Finalize_GlobalHistory :: "BurndownAnalysis \<Rightarrow> go_panic + int64 list list" where
  "Finalize_GlobalHistory analyser =
     matrix (globalStatus analyser) (Sampling analyser) (Granularity analyser)"

text \<open>
  The scenario of C3: granularity 1, sampling 1, a fresh global counter, commit day 0,
  and the one callback of the inserted file: previous value \<open>packPersonWithDay 0 0\<close>,
  delta 10.
\<close>

definition single_commit :: BurndownAnalysis where
  "single_commit =
     updateStatus
       \<lparr>Granularity = 1, Sampling = 1, globalStatus = newGlobalCounter, files = Map.empty,
         commitDay = 0\<rparr>
       (packPersonWithDay 0 0) 10"

lemma single_commit_counter:
  "globalStatus single_commit = update newGlobalCounter 0 0 10"
  "Sampling single_commit = 1" "Granularity single_commit = 1"
  by (simp_all add: single_commit_def updateStatus_def unpackPersonWithDay_def
      packPersonWithDay_def)

lemma single_commit_last_row:
  "groupByDay (update newGlobalCounter 0 0 10) 1 1 = Inr [10]"
proof -
  have s1: "{0..<1::int} = {0}" by auto
  have "sumCommits (update newGlobalCounter 0 0 10) 1 0 0 0 = 10"
    by (simp add: sumCommits_eq s1 diffs_at_def update_def newGlobalCounter_def)
  hence "groupLoop (update newGlobalCounter 0 0 10) 1 1 0 [0] 0 = Inr ([10], 0)"
    by (subst groupLoop.simps) (simp add: go_rem_def go_quot_def groupLoop_done)
  thus ?thesis
    by (simp add: groupByDay_def go_rem_def go_quot_def)
qed

lemma single_commit_lastDay: "lastDay (update newGlobalCounter 0 0 10) = 0"
  by (simp add: update_def newGlobalCounter_def)

lemma single_commit_loop:
  "matrixLoop (update newGlobalCounter 0 0 10) 1 1 0 0 [] = Inr []"
proof -
  note l = single_commit_lastDay
  have "matrixLoop (update newGlobalCounter 0 0 10) 1 1 1 0 [] = Inr []"
    by (subst matrixLoop.simps) (simp add: l)
  thus ?thesis
    by (subst matrixLoop.simps) (simp add: l go_quot_def)
qed

text \<open>
  C3 (as amended). In the scenario, finalizing yields \<open>GlobalHistory = [[10]]\<close>: the loop
  over the days \<open>0..lastDay\<close> emits nothing on day 0 (the sample index does not increase),
  and the row of day \<open>lastDay + 1\<close> is the only one.
\<close>

theorem single_commit_history:
  "Finalize_GlobalHistory single_commit = Inr [[10]]"
  by (simp add: Finalize_GlobalHistory_def single_commit_counter matrix_def
      single_commit_loop single_commit_last_row single_commit_lastDay)

text \<open>C3 as stated fails: the history has one row, not the two rows \<open>[[10], [10]]\<close>.\<close>

theorem single_commit_counterexample:
  "Finalize_GlobalHistory single_commit \<noteq> Inr [[10], [10]]"
  by (simp add: Finalize_GlobalHistory_def single_commit_counter matrix_def
      single_commit_loop single_commit_last_row single_commit_lastDay)


section \<open>The per-commit driver (burndown.go)\<close>

record commit =
  Hash :: string
  ParentHashes :: "string list"

record deps =
  dep_commit :: commit
  dep_author :: go_int
  dep_day :: go_int
  dep_changes :: "change list"
  dep_commitDeps :: "string \<rightharpoonup> int"

text \<open>
  \<open>copyFiles\<close>: every file of the snapshot is copied. \<open>File.Copy\<close> is not in the sources
  and is the parameter \<open>fileCopy\<close>; calling it on nil is a nil dereference.
\<close>

fun copyFiles ::
  "('w \<Rightarrow> nat \<Rightarrow> 'w \<times> (fault + nat)) \<Rightarrow> 'w \<Rightarrow> snapshot \<Rightarrow> 'w \<times> (fault + snapshot)" where
  "copyFiles fileCopy w [] = (w, Inr [])"
| "copyFiles fileCopy w ((name, file) # rest) =
     (case file of
        None \<Rightarrow> (w, Inl (Panicked NilDereference))
      | Some f \<Rightarrow>
          (case fileCopy w f of
             (w', Inl err) \<Rightarrow> (w', Inl err)
           | (w', Inr f') \<Rightarrow>
               (case copyFiles fileCopy w' rest of
                  (w'', Inl err) \<Rightarrow> (w'', Inl err)
                | (w'', Inr copied) \<Rightarrow> (w'', Inr ((name, Some f') # copied)))))"

text \<open>\<open>cleanup\<close>: the snapshots of parents with no child left are dropped.\<close>

fun cleanup ::
  "string list \<Rightarrow> BurndownAnalysis \<Rightarrow> (string \<rightharpoonup> int) \<Rightarrow> BurndownAnalysis \<times> (string \<rightharpoonup> int)" where
  "cleanup [] analyser commitDeps = (analyser, commitDeps)"
| "cleanup (h # hs) analyser commitDeps =
     (let n = (case commitDeps h of None \<Rightarrow> 0 | Some v \<Rightarrow> v) - 1 in
      if n = 0
      then cleanup hs (analyser\<lparr>files := (files analyser)(h := None)\<rparr>) (commitDeps(h := None))
      else cleanup hs analyser (commitDeps(h \<mapsto> n)))"

text \<open>
  The end of \<open>Consume\<close>: the result of the processor is stored under the commit's hash
  and the parents are cleaned up, or the processor's error is returned.
\<close>

definition store_result ::
  "commit \<Rightarrow> (string \<rightharpoonup> int) \<Rightarrow> ('w \<times> BurndownAnalysis) \<times> (fault + snapshot)
   \<Rightarrow> fault option \<times> 'w \<times> BurndownAnalysis \<times> (string \<rightharpoonup> int)" where
  "store_result c commitDeps r =
     (case r of
        ((w, analyser), Inl err) \<Rightarrow> (Some err, w, analyser, commitDeps)
      | ((w, analyser), Inr fs) \<Rightarrow>
          (let (analyser', commitDeps') =
                 cleanup (ParentHashes c)
                   (analyser\<lparr>files := (files analyser)(Hash c \<mapsto> fs)\<rparr>) commitDeps
           in (None, w, analyser', commitDeps')))"

text \<open>
  \<open>Consume\<close>. The parameters are what the sources do not hold: \<open>isBinary\<close>, the
  merger's \<open>handleModification\<close>, \<open>Process\<close> of the change applier made for a day and
  an author (its callbacks reach the analyser, so it works on the world and the
  analyser), and \<open>File.Copy\<close>. The result is the returned error, if any, and the state
  the call leaves.
\<close>

definition Consume ::
  "(nat \<Rightarrow> fault + bool)
   \<Rightarrow> ('w \<times> BurndownAnalysis \<Rightarrow> changeMerger \<Rightarrow> string \<Rightarrow> string
        \<Rightarrow> ('w \<times> BurndownAnalysis) \<times> (fault + changeMerger))
   \<Rightarrow> (go_int \<Rightarrow> go_int \<Rightarrow> 'w \<times> BurndownAnalysis \<Rightarrow> snapshot \<Rightarrow> change list
        \<Rightarrow> ('w \<times> BurndownAnalysis) \<times> (fault + snapshot))
   \<Rightarrow> ('w \<Rightarrow> nat \<Rightarrow> 'w \<times> (fault + nat))
   \<Rightarrow> 'w \<Rightarrow> BurndownAnalysis \<Rightarrow> deps \<Rightarrow> fault option \<times> 'w \<times> BurndownAnalysis \<times> (string \<rightharpoonup> int)" where
  "Consume isBinary mergeModification applierProcess fileCopy w analyser0 d =
     (let c = dep_commit d;
          commitHash = Hash c;
          analyser = analyser0\<lparr>commitDay := sint (dep_day d)\<rparr>;
          commitDeps = dep_commitDeps d
      in case ParentHashes c of
           [] \<Rightarrow>
             store_result c commitDeps
               (applierProcess (dep_day d) (dep_author d) (w, analyser) [] (dep_changes d))
         | [parent] \<Rightarrow>
             (case files analyser parent of
                None \<Rightarrow> (Some (Failed (NotProcessed parent commitHash)), w, analyser, commitDeps)
              | Some fs \<Rightarrow>
                  (case copyFiles fileCopy w fs of
                     (w', Inl err) \<Rightarrow> (Some err, w', analyser, commitDeps)
                   | (w', Inr copied) \<Rightarrow>
                       store_result c commitDeps
                         (applierProcess (dep_day d) (dep_author d) (w', analyser) copied
                            (dep_changes d))))
         | [parent1, parent2] \<Rightarrow>
             (case files analyser parent1 of
                None \<Rightarrow> (Some (Failed (NotProcessed parent1 commitHash)), w, analyser, commitDeps)
              | Some files1 \<Rightarrow>
                  (case files analyser parent2 of
                     None \<Rightarrow>
                       (Some (Failed (NotProcessed parent2 commitHash)), w, analyser, commitDeps)
                   | Some files2 \<Rightarrow>
                       (case copyFiles fileCopy w files1 of
                          (w', Inl err) \<Rightarrow> (Some err, w', analyser, commitDeps)
                        | (w', Inr copied1) \<Rightarrow>
                            (case copyFiles fileCopy w' files2 of
                               (w'', Inl err) \<Rightarrow> (Some err, w'', analyser, commitDeps)
                             | (w'', Inr copied2) \<Rightarrow>
                                 store_result c commitDeps
                                   (Process isBinary mergeModification (w'', analyser)
                                      \<lparr>changeMerger.files = copied1, sideFiles = copied2\<rparr>
                                      (dep_changes d))))))
         | _ \<Rightarrow> (Some (Failed TooManyParents), w, analyser, commitDeps))"


text \<open>A prerequisite is missing: a parent without a snapshot, or more than two parents.\<close>

fun missing_prerequisite :: "(string \<rightharpoonup> snapshot) \<Rightarrow> string list \<Rightarrow> bool" where
  "missing_prerequisite st [] = False"
| "missing_prerequisite st [parent] = (st parent = None)"
| "missing_prerequisite st [parent1, parent2] = (st parent1 = None \<or> st parent2 = None)"
| "missing_prerequisite st (parent1 # parent2 # parent3 # parents) = True"

text \<open>
  C8. When a parent's snapshot is absent from the store, or the commit has more than two
  parents, \<open>Consume\<close> returns an error; the store \<open>files\<close> is what it was (nothing is
  added under the new hash, nothing is removed), the world of the \<open>File\<close> objects is
  untouched (no copy is made, no file is mutated), and so are the counters and
  \<open>commitDeps\<close>: only \<open>commitDay\<close> has been set.
\<close>

theorem Consume_missing_prerequisite:
  assumes "missing_prerequisite (files analyser) (ParentHashes (dep_commit d))"
  shows "\<exists>err. Consume isBinary mergeModification applierProcess fileCopy w analyser d
           = (Some (Failed err), w, analyser\<lparr>commitDay := sint (dep_day d)\<rparr>, dep_commitDeps d)
         \<and> files (analyser\<lparr>commitDay := sint (dep_day d)\<rparr>) = files analyser
         \<and> files (analyser\<lparr>commitDay := sint (dep_day d)\<rparr>) (Hash (dep_commit d))
             = files analyser (Hash (dep_commit d))"
  using assms
  by (cases "(files analyser, ParentHashes (dep_commit d))" rule: missing_prerequisite.cases)
     (auto simp add: Consume_def Let_def split: option.splits)

text \<open>A commit \<open>c1\<close> whose parent \<open>c0\<close> was never processed, on an empty store.\<close>

definition orphan_deps :: deps where
  "orphan_deps =
     \<lparr>dep_commit = \<lparr>Hash = ''c1'', ParentHashes = [''c0'']\<rparr>, dep_author = 0, dep_day = 3,
      dep_changes = [], dep_commitDeps = Map.empty\<rparr>"

definition fresh_analysis :: BurndownAnalysis where
  "fresh_analysis =
     \<lparr>Granularity = 30, Sampling = 30, globalStatus = newGlobalCounter, files = Map.empty,
      commitDay = 0\<rparr>"

theorem Consume_missing_prerequisite_witness:
  "missing_prerequisite (files fresh_analysis) (ParentHashes (dep_commit orphan_deps))
   \<and> (\<exists>err. Consume (\<lambda>h. Inr False) (\<lambda>w p nameFrom nameTo. (w, Inr p))
               (\<lambda>day author w fs changes. (w, Inr fs)) (\<lambda>w f. (w, Inr f)) () fresh_analysis orphan_deps
             = (Some (Failed err), (), fresh_analysis\<lparr>commitDay := 3\<rparr>, Map.empty))
   \<and> files (fresh_analysis\<lparr>commitDay := 3\<rparr>) ''c1'' = None"
proof -
  have m: "missing_prerequisite (files fresh_analysis) (ParentHashes (dep_commit orphan_deps))"
    by (simp add: fresh_analysis_def orphan_deps_def)
  have d: "sint (dep_day orphan_deps) = 3" "dep_commitDeps orphan_deps = Map.empty"
    by (simp_all add: orphan_deps_def)
  have "files (fresh_analysis\<lparr>commitDay := 3\<rparr>) ''c1'' = None"
    by (simp add: fresh_analysis_def)
  thus ?thesis
    using m Consume_missing_prerequisite [OF m, of "\<lambda>h. Inr False" "\<lambda>w p nameFrom nameTo. (w, Inr p)"
        "\<lambda>day author w fs changes. (w, Inr fs)" "\<lambda>w f. (w, Inr f)" "()"]
    by (simp add: d)
qed


section \<open>The red-black tree (rbtree/rbtree.go)\<close>

subsection \<open>Nodes, trees and the heap\<close>

text \<open>
  A \<open>*node\<close> and a \<open>*RBTree\<close> are addresses or nil. The heap holds the nodes and the
  tree headers by address; the addresses below \<open>node_top\<close> and \<open>tree_top\<close> are the
  allocated ones. The colour constants are \<open>red = 0\<close> and \<open>black = 1\<close>, so the zero
  value of a node is red.
\<close>

type_synonym ptr = "nat option"
type_synonym tree_ptr = "nat option"

datatype color = red | black

record Item =
  Key :: go_int
  Value :: go_int

record node =
  item :: Item
  parent :: ptr
  left :: ptr
  right :: ptr
  color :: color

record RBTree =
  root :: ptr
  minNode :: ptr
  maxNode :: ptr
  count :: go_int

record Iterator =
  root :: tree_ptr
  node :: ptr

record heap =
  nodes :: "nat \<Rightarrow> node"
  node_top :: nat
  trees :: "nat \<Rightarrow> RBTree"
  tree_top :: nat

definition zero_node :: node where
  "zero_node = \<lparr>item = \<lparr>Key = 0, Value = 0\<rparr>, parent = None, left = None, right = None,
                 color = red\<rparr>"

definition zero_tree :: RBTree where
  "zero_tree = \<lparr>RBTree.root = None, minNode = None, maxNode = None, count = 0\<rparr>"

text \<open>\<open>init\<close> allocates the node of \<open>negativeLimitNode\<close>: it is the first address.\<close>

definition negativeLimitNode :: ptr where
  "negativeLimitNode = Some 0"

definition init_heap :: heap where
  "init_heap = \<lparr>nodes = (\<lambda>a. zero_node), node_top = 1, trees = (\<lambda>a. zero_tree), tree_top = 0\<rparr>"

subsection \<open>Programs on the heap\<close>

text \<open>
  A program takes the heap and returns a panic, or a result and the new heap; \<open>None\<close> is a
  loop that does not end.
\<close>

type_synonym 'a prog = "heap \<Rightarrow> (go_panic + 'a \<times> heap) option"

definition ret :: "'a \<Rightarrow> 'a prog" where
  "ret x s = Some (Inr (x, s))"

definition panic :: "go_panic \<Rightarrow> 'a prog" where
  "panic e s = Some (Inl e)"

definition bind :: "'a prog \<Rightarrow> ('a \<Rightarrow> 'b prog) \<Rightarrow> 'b prog" where
  "bind m f s =
     (case m s of
        None \<Rightarrow> None
      | Some (Inl e) \<Rightarrow> Some (Inl e)
      | Some (Inr (x, s')) \<Rightarrow> f x s')"

lemma bind_prog_mono [partial_function_mono]:
  assumes mf: "mono_option (\<lambda>f. B f s)" and mg: "\<And>y s'. mono_option (\<lambda>f. C y f s')"
  shows "mono_option (\<lambda>f. bind (B f) (\<lambda>y. C y f) s)"
proof (rule monotoneI)
  fix f g :: "'a \<Rightarrow> 'b option" assume fg: "fun_ord option_ord f g"
  from mf have 1: "option_ord (B f s) (B g s)" by (rule monotoneD) (rule fg)
  from mg have 2: "\<And>y' s'. option_ord (C y' f s') (C y' g s')" by (rule monotoneD) (rule fg)
  show "option_ord (bind (B f) (\<lambda>y. C y f) s) (bind (B g) (\<lambda>y. C y g) s)"
  proof (cases "B f s")
    case None
    thus ?thesis by (simp add: bind_def flat_ord_def)
  next
    case (Some r)
    hence "B g s = Some r" using 1 by (simp add: flat_ord_def)
    thus ?thesis using Some 2 by (cases r) (auto simp add: bind_def flat_ord_def)
  qed
qed

lemma if_prog_mono [partial_function_mono]:
  assumes "mono_option (\<lambda>f. F f s)" and "mono_option (\<lambda>f. G f s)"
  shows "mono_option (\<lambda>f. (if c then F f else G f) s)"
  using assms by (cases c) simp_all

text \<open>Reading and writing through a pointer; nil panics.\<close>

definition get_node :: "ptr \<Rightarrow> node prog" where
  "get_node p s =
     (case p of None \<Rightarrow> Some (Inl NilDereference) | Some a \<Rightarrow> Some (Inr (nodes s a, s)))"

definition set_node :: "ptr \<Rightarrow> (node \<Rightarrow> node) \<Rightarrow> unit prog" where
  "set_node p f s =
     (case p of
        None \<Rightarrow> Some (Inl NilDereference)
      | Some a \<Rightarrow> Some (Inr ((), s\<lparr>nodes := (nodes s)(a := f (nodes s a))\<rparr>)))"

definition new_node :: "node \<Rightarrow> ptr prog" where
  "new_node n s =
     Some (Inr (Some (node_top s),
                s\<lparr>nodes := (nodes s)(node_top s := n), node_top := node_top s + 1\<rparr>))"

definition get_tree :: "tree_ptr \<Rightarrow> RBTree prog" where
  "get_tree t s =
     (case t of None \<Rightarrow> Some (Inl NilDereference) | Some a \<Rightarrow> Some (Inr (trees s a, s)))"

definition set_tree :: "tree_ptr \<Rightarrow> (RBTree \<Rightarrow> RBTree) \<Rightarrow> unit prog" where
  "set_tree t f s =
     (case t of
        None \<Rightarrow> Some (Inl NilDereference)
      | Some a \<Rightarrow> Some (Inr ((), s\<lparr>trees := (trees s)(a := f (trees s a))\<rparr>)))"

definition new_tree :: "RBTree \<Rightarrow> tree_ptr prog" where
  "new_tree t s =
     Some (Inr (Some (tree_top s),
                s\<lparr>trees := (trees s)(tree_top s := t), tree_top := tree_top s + 1\<rparr>))"

definition doAssert :: "bool \<Rightarrow> unit prog" where
  "doAssert b = (if b then ret () else panic AssertionFailed)"


text \<open>The field reads \<open>p.f\<close> and writes \<open>p.f = v\<close>.\<close>

definition get_item :: "ptr \<Rightarrow> Item prog" where
  "get_item p = bind (get_node p) (\<lambda>n. ret (item n))"

definition get_parent :: "ptr \<Rightarrow> ptr prog" where
  "get_parent p = bind (get_node p) (\<lambda>n. ret (parent n))"

definition get_left :: "ptr \<Rightarrow> ptr prog" where
  "get_left p = bind (get_node p) (\<lambda>n. ret (left n))"

definition get_right :: "ptr \<Rightarrow> ptr prog" where
  "get_right p = bind (get_node p) (\<lambda>n. ret (right n))"

definition get_color :: "ptr \<Rightarrow> color prog" where
  "get_color p = bind (get_node p) (\<lambda>n. ret (color n))"

definition set_item :: "ptr \<Rightarrow> Item \<Rightarrow> unit prog" where
  "set_item p v = set_node p (\<lambda>n. n\<lparr>item := v\<rparr>)"

definition set_parent :: "ptr \<Rightarrow> ptr \<Rightarrow> unit prog" where
  "set_parent p v = set_node p (\<lambda>n. n\<lparr>parent := v\<rparr>)"

definition set_left :: "ptr \<Rightarrow> ptr \<Rightarrow> unit prog" where
  "set_left p v = set_node p (\<lambda>n. n\<lparr>left := v\<rparr>)"

definition set_right :: "ptr \<Rightarrow> ptr \<Rightarrow> unit prog" where
  "set_right p v = set_node p (\<lambda>n. n\<lparr>right := v\<rparr>)"

definition set_color :: "ptr \<Rightarrow> color \<Rightarrow> unit prog" where
  "set_color p v = set_node p (\<lambda>n. n\<lparr>color := v\<rparr>)"

definition get_root :: "tree_ptr \<Rightarrow> ptr prog" where
  "get_root t = bind (get_tree t) (\<lambda>tr. ret (RBTree.root tr))"

definition get_minNode :: "tree_ptr \<Rightarrow> ptr prog" where
  "get_minNode t = bind (get_tree t) (\<lambda>tr. ret (minNode tr))"

definition get_maxNode :: "tree_ptr \<Rightarrow> ptr prog" where
  "get_maxNode t = bind (get_tree t) (\<lambda>tr. ret (maxNode tr))"

definition get_count :: "tree_ptr \<Rightarrow> go_int prog" where
  "get_count t = bind (get_tree t) (\<lambda>tr. ret (count tr))"

definition set_root :: "tree_ptr \<Rightarrow> ptr \<Rightarrow> unit prog" where
  "set_root t v = set_tree t (\<lambda>tr. tr\<lparr>RBTree.root := v\<rparr>)"

definition set_minNode :: "tree_ptr \<Rightarrow> ptr \<Rightarrow> unit prog" where
  "set_minNode t v = set_tree t (\<lambda>tr. tr\<lparr>minNode := v\<rparr>)"

definition set_maxNode :: "tree_ptr \<Rightarrow> ptr \<Rightarrow> unit prog" where
  "set_maxNode t v = set_tree t (\<lambda>tr. tr\<lparr>maxNode := v\<rparr>)"

definition set_count :: "tree_ptr \<Rightarrow> go_int \<Rightarrow> unit prog" where
  "set_count t v = set_tree t (\<lambda>tr. tr\<lparr>count := v\<rparr>)"

text \<open>\<open>a && b\<close>: the second operand is evaluated only when the first is true.\<close>

definition and_then :: "bool prog \<Rightarrow> bool prog \<Rightarrow> bool prog" where
  "and_then a b = bind a (\<lambda>x. if x then b else ret False)"

subsection \<open>Node accessors\<close>

definition getColor :: "ptr \<Rightarrow> color prog" where
  "getColor n = (if n = None then ret black else bind (get_node n) (\<lambda>nd. ret (color nd)))"

definition isLeftChild :: "ptr \<Rightarrow> bool prog" where
  "isLeftChild n =
     bind (get_node n) (\<lambda>nd.
     bind (get_node (parent nd)) (\<lambda>p.
     ret (n = left p)))"

definition isRightChild :: "ptr \<Rightarrow> bool prog" where
  "isRightChild n =
     bind (get_node n) (\<lambda>nd.
     bind (get_node (parent nd)) (\<lambda>p.
     ret (n = right p)))"

definition sibling :: "ptr \<Rightarrow> ptr prog" where
  "sibling n =
     bind (get_node n) (\<lambda>nd.
     bind (doAssert (parent nd \<noteq> None)) (\<lambda>u.
     bind (isLeftChild n) (\<lambda>isLeft.
     bind (get_node (parent nd)) (\<lambda>p.
     ret (if isLeft then right p else left p)))))"

text \<open>The two loops of \<open>doNext\<close>: down the left spine, and up while a right child.\<close>

partial_function (option) descendLeft :: "ptr \<Rightarrow> ptr prog" where
  "descendLeft m s =
     bind (get_node m) (\<lambda>nd.
       if left nd \<noteq> None then descendLeft (left nd) else ret m) s"

partial_function (option) climbNext :: "ptr \<Rightarrow> ptr prog" where
  "climbNext n s =
     (if n \<noteq> None then
        bind (get_node n) (\<lambda>nd.
          if parent nd = None then ret None
          else bind (isLeftChild n) (\<lambda>isLeft.
                 if isLeft then ret (parent nd) else climbNext (parent nd)))
      else ret None) s"

definition doNext :: "ptr \<Rightarrow> ptr prog" where
  "doNext n =
     bind (get_node n) (\<lambda>nd.
       if right nd \<noteq> None then descendLeft (right nd) else climbNext n)"

partial_function (option) descendRight :: "ptr \<Rightarrow> ptr prog" where
  "descendRight m s =
     bind (get_node m) (\<lambda>nd.
       if right nd \<noteq> None then descendRight (right nd) else ret m) s"

definition maxPredecessor :: "ptr \<Rightarrow> ptr prog" where
  "maxPredecessor n =
     bind (get_node n) (\<lambda>nd.
     bind (doAssert (left nd \<noteq> None)) (\<lambda>u.
     descendRight (left nd)))"

partial_function (option) climbPrev :: "ptr \<Rightarrow> ptr prog" where
  "climbPrev n s =
     (if n \<noteq> None then
        bind (get_node n) (\<lambda>nd.
          if parent nd = None then ret negativeLimitNode
          else bind (isRightChild n) (\<lambda>isRight.
                 if isRight then ret (parent nd) else climbPrev (parent nd)))
      else ret negativeLimitNode) s"

definition doPrev :: "ptr \<Rightarrow> ptr prog" where
  "doPrev n =
     bind (get_node n) (\<lambda>nd.
       if left nd \<noteq> None then maxPredecessor n else climbPrev n)"


subsection \<open>Private methods of the tree\<close>

partial_function (option) recomputeMinLoop :: "tree_ptr \<Rightarrow> unit prog" where
  "recomputeMinLoop t s =
     bind (get_minNode t) (\<lambda>m.
     bind (get_left m) (\<lambda>l.
       if l \<noteq> None then bind (set_minNode t l) (\<lambda>u. recomputeMinLoop t) else ret ())) s"

definition recomputeMinNode :: "tree_ptr \<Rightarrow> unit prog" where
  "recomputeMinNode t =
     bind (get_root t) (\<lambda>r.
     bind (set_minNode t r) (\<lambda>u.
       if r \<noteq> None then recomputeMinLoop t else ret ()))"

partial_function (option) recomputeMaxLoop :: "tree_ptr \<Rightarrow> unit prog" where
  "recomputeMaxLoop t s =
     bind (get_maxNode t) (\<lambda>m.
     bind (get_right m) (\<lambda>r.
       if r \<noteq> None then bind (set_maxNode t r) (\<lambda>u. recomputeMaxLoop t) else ret ())) s"

definition recomputeMaxNode :: "tree_ptr \<Rightarrow> unit prog" where
  "recomputeMaxNode t =
     bind (get_root t) (\<lambda>r.
     bind (set_maxNode t r) (\<lambda>u.
       if r \<noteq> None then recomputeMaxLoop t else ret ()))"

definition maybeSetMinNode :: "tree_ptr \<Rightarrow> ptr \<Rightarrow> unit prog" where
  "maybeSetMinNode t n =
     bind (get_minNode t) (\<lambda>m.
       if m = None then bind (set_minNode t n) (\<lambda>u. set_maxNode t n)
       else bind (get_item n) (\<lambda>ni.
            bind (get_item m) (\<lambda>mi.
              if Key ni <s Key mi then set_minNode t n else ret ())))"

definition maybeSetMaxNode :: "tree_ptr \<Rightarrow> ptr \<Rightarrow> unit prog" where
  "maybeSetMaxNode t n =
     bind (get_maxNode t) (\<lambda>m.
       if m = None then bind (set_minNode t n) (\<lambda>u. set_maxNode t n)
       else bind (get_item n) (\<lambda>ni.
            bind (get_item m) (\<lambda>mi.
              if Key mi <s Key ni then set_maxNode t n else ret ())))"

text \<open>\<open>root.count++\<close> and \<open>root.count--\<close>.\<close>

definition incCount :: "tree_ptr \<Rightarrow> unit prog" where
  "incCount t = bind (get_count t) (\<lambda>c. set_count t (c + 1))"

definition decCount :: "tree_ptr \<Rightarrow> unit prog" where
  "decCount t = bind (get_count t) (\<lambda>c. set_count t (c - 1))"

text \<open>
  The loop of \<open>doInsert\<close> (its variable \<open>parent\<close> is \<open>par\<close>). \<open>comp := item.Key - parent.item.Key\<close> is a subtraction of
  \<open>int\<close>: it wraps, and \<open>comp < 0\<close> reads the result as signed.
\<close>

partial_function (option) doInsertLoop :: "tree_ptr \<Rightarrow> Item \<Rightarrow> ptr \<Rightarrow> ptr prog" where
  "doInsertLoop t it par s =
     bind (get_item par) (\<lambda>pi.
       if Key it - Key pi = 0 then ret None
       else if Key it - Key pi <s 0 then
         bind (get_left par) (\<lambda>l.
           if l = None then
             bind (new_node (zero_node\<lparr>item := it, parent := par\<rparr>)) (\<lambda>n.
             bind (set_left par n) (\<lambda>u.
             bind (incCount t) (\<lambda>u.
             bind (maybeSetMinNode t n) (\<lambda>u.
             ret n))))
           else doInsertLoop t it l)
       else
         bind (get_right par) (\<lambda>r.
           if r = None then
             bind (new_node (zero_node\<lparr>item := it, parent := par\<rparr>)) (\<lambda>n.
             bind (set_right par n) (\<lambda>u.
             bind (incCount t) (\<lambda>u.
             bind (maybeSetMaxNode t n) (\<lambda>u.
             ret n))))
           else doInsertLoop t it r)) s"

definition doInsert :: "tree_ptr \<Rightarrow> Item \<Rightarrow> ptr prog" where
  "doInsert t it =
     bind (get_root t) (\<lambda>r.
       if r = None then
         bind (new_node (zero_node\<lparr>item := it\<rparr>)) (\<lambda>n.
         bind (set_root t n) (\<lambda>u.
         bind (set_minNode t n) (\<lambda>u.
         bind (set_maxNode t n) (\<lambda>u.
         bind (incCount t) (\<lambda>u.
         ret n)))))
       else doInsertLoop t it r)"

text \<open>The loop of \<open>findGE\<close>, with the same wrapping comparison \<open>comp := key - n.item.Key\<close>.\<close>

partial_function (option) findGELoop :: "go_int \<Rightarrow> ptr \<Rightarrow> (ptr \<times> bool) prog" where
  "findGELoop key n s =
     (if n = None then ret (None, False)
      else
        bind (get_item n) (\<lambda>ni.
          if key - Key ni = 0 then ret (n, True)
          else if key - Key ni <s 0 then
            bind (get_left n) (\<lambda>l.
              if l \<noteq> None then findGELoop key l else ret (n, False))
          else
            bind (get_right n) (\<lambda>r.
              if r \<noteq> None then findGELoop key r
              else
                bind (doNext n) (\<lambda>succ.
                  if succ = None then ret (None, False)
                  else bind (get_item succ) (\<lambda>si. ret (succ, key = Key si)))))) s"

definition findGE :: "tree_ptr \<Rightarrow> go_int \<Rightarrow> (ptr \<times> bool) prog" where
  "findGE t key = bind (get_root t) (\<lambda>r. findGELoop key r)"

definition replaceNode :: "tree_ptr \<Rightarrow> ptr \<Rightarrow> ptr \<Rightarrow> unit prog" where
  "replaceNode t oldn newn =
     bind (get_parent oldn) (\<lambda>op.
     bind (if op = None then set_root t newn
           else bind (get_left op) (\<lambda>opl.
                  if oldn = opl then set_left op newn else set_right op newn)) (\<lambda>u.
       if newn \<noteq> None
       then bind (get_parent oldn) (\<lambda>op. set_parent newn op)
       else ret ()))"

definition rotateLeft :: "tree_ptr \<Rightarrow> ptr \<Rightarrow> unit prog" where
  "rotateLeft t x =
     bind (get_right x) (\<lambda>y.
     bind (get_left y) (\<lambda>yl.
     bind (set_right x yl) (\<lambda>u.
     bind (get_left y) (\<lambda>yl.
     bind (if yl \<noteq> None then set_parent yl x else ret ()) (\<lambda>u.
     bind (get_parent x) (\<lambda>xp.
     bind (set_parent y xp) (\<lambda>u.
     bind (get_parent x) (\<lambda>xp.
     bind (if xp = None then set_root t y
           else bind (isLeftChild x) (\<lambda>isLeft.
                  if isLeft then set_left xp y else set_right xp y)) (\<lambda>u.
     bind (set_left y x) (\<lambda>u.
     set_parent x y))))))))))"

definition rotateRight :: "tree_ptr \<Rightarrow> ptr \<Rightarrow> unit prog" where
  "rotateRight t y =
     bind (get_left y) (\<lambda>x.
     bind (get_right x) (\<lambda>xr.
     bind (set_left y xr) (\<lambda>u.
     bind (get_right x) (\<lambda>xr.
     bind (if xr \<noteq> None then set_parent xr y else ret ()) (\<lambda>u.
     bind (get_parent y) (\<lambda>yp.
     bind (set_parent x yp) (\<lambda>u.
     bind (get_parent y) (\<lambda>yp.
     bind (if yp = None then set_root t x
           else bind (isLeftChild y) (\<lambda>isLeft.
                  if isLeft then set_left yp x else set_right yp x)) (\<lambda>u.
     bind (set_right x y) (\<lambda>u.
     set_parent y x))))))))))"


subsection \<open>Insertion\<close>

text \<open>The rebalancing loop of \<open>Insert\<close>, from the node \<open>n\<close>.\<close>

partial_function (option) insertFix :: "tree_ptr \<Rightarrow> ptr \<Rightarrow> unit prog" where
  "insertFix t n s =
     bind (get_parent n) (\<lambda>p.
       if p = None then set_color n black
       else
         bind (get_color p) (\<lambda>pc.
           if pc = black then ret ()
           else
             bind (get_parent p) (\<lambda>grandparent.
             bind (isLeftChild p) (\<lambda>parentIsLeft.
             bind (if parentIsLeft then get_right grandparent else get_left grandparent) (\<lambda>uncle.
             bind (and_then (ret (uncle \<noteq> None))
                     (bind (get_color uncle) (\<lambda>uc. ret (uc = red)))) (\<lambda>uncleRed.
               if uncleRed then
                 bind (set_color p black) (\<lambda>u.
                 bind (set_color uncle black) (\<lambda>u.
                 bind (set_color grandparent red) (\<lambda>u.
                 insertFix t grandparent)))
               else
                 bind (and_then (isRightChild n) (isLeftChild p)) (\<lambda>zigzagLeft.
                   if zigzagLeft then
                     bind (rotateLeft t p) (\<lambda>u.
                     bind (get_left n) (\<lambda>n'.
                     insertFix t n'))
                   else
                     bind (and_then (isLeftChild n) (isRightChild p)) (\<lambda>zigzagRight.
                       if zigzagRight then
                         bind (rotateRight t p) (\<lambda>u.
                         bind (get_right n) (\<lambda>n'.
                         insertFix t n'))
                       else
                         bind (set_color p black) (\<lambda>u.
                         bind (set_color grandparent red) (\<lambda>u.
                         bind (isLeftChild n) (\<lambda>isLeft.
                           if isLeft then rotateRight t grandparent
                           else rotateLeft t grandparent))))))))))) s"

definition Insert :: "tree_ptr \<Rightarrow> Item \<Rightarrow> (bool \<times> Iterator) prog" where
  "Insert t it =
     bind (doInsert t it) (\<lambda>n.
       if n = None then ret (False, \<lparr>Iterator.root = None, node = None\<rparr>)
       else
         bind (set_color n red) (\<lambda>u.
         bind (insertFix t n) (\<lambda>u.
         ret (True, \<lparr>Iterator.root = t, node = n\<rparr>))))"

subsection \<open>Deletion\<close>

text \<open>\<open>if p.left != nil { p.left.parent = p }\<close>, and the same on the right.\<close>

definition adoptLeft :: "ptr \<Rightarrow> unit prog" where
  "adoptLeft p = bind (get_left p) (\<lambda>l. if l \<noteq> None then set_parent l p else ret ())"

definition adoptRight :: "ptr \<Rightarrow> unit prog" where
  "adoptRight p = bind (get_right p) (\<lambda>r. if r \<noteq> None then set_parent r p else ret ())"

text \<open>\<open>swapNodes\<close>; \<open>tmp := *pred\<close> is a copy of the node.\<close>

definition swapNodes :: "tree_ptr \<Rightarrow> ptr \<Rightarrow> ptr \<Rightarrow> unit prog" where
  "swapNodes t n pred =
     bind (doAssert (pred \<noteq> n)) (\<lambda>u.
     bind (isLeftChild pred) (\<lambda>isLeft.
     bind (get_node pred) (\<lambda>tmp.
     bind (replaceNode t n pred) (\<lambda>u.
     bind (get_color n) (\<lambda>nc.
     bind (set_color pred nc) (\<lambda>u.
     bind (if parent tmp = n then
             bind (if isLeft then
                     bind (set_left pred n) (\<lambda>u.
                     bind (get_right n) (\<lambda>nr.
                     bind (set_right pred nr) (\<lambda>u.
                     adoptRight pred)))
                   else
                     bind (get_left n) (\<lambda>nl.
                     bind (set_left pred nl) (\<lambda>u.
                     bind (adoptLeft pred) (\<lambda>u.
                     set_right pred n)))) (\<lambda>u.
             bind (set_item n (item tmp)) (\<lambda>u.
             bind (set_parent n pred) (\<lambda>u.
             bind (set_left n (left tmp)) (\<lambda>u.
             bind (adoptLeft n) (\<lambda>u.
             bind (set_right n (right tmp)) (\<lambda>u.
             adoptRight n))))))
           else
             bind (get_left n) (\<lambda>nl.
             bind (set_left pred nl) (\<lambda>u.
             bind (adoptLeft pred) (\<lambda>u.
             bind (get_right n) (\<lambda>nr.
             bind (set_right pred nr) (\<lambda>u.
             bind (adoptRight pred) (\<lambda>u.
             bind (if isLeft then set_left (parent tmp) n else set_right (parent tmp) n) (\<lambda>u.
             bind (set_item n (item tmp)) (\<lambda>u.
             bind (set_parent n (parent tmp)) (\<lambda>u.
             bind (set_left n (left tmp)) (\<lambda>u.
             bind (adoptLeft n) (\<lambda>u.
             bind (set_right n (right tmp)) (\<lambda>u.
             adoptRight n))))))))))))) (\<lambda>u.
     set_color n (color tmp))))))))"

text \<open>The colour tests of the deletion cases, each with the calls the source makes.\<close>

definition parentColorIs :: "ptr \<Rightarrow> color \<Rightarrow> bool prog" where
  "parentColorIs n c = bind (get_parent n) (\<lambda>p. bind (getColor p) (\<lambda>pc. ret (pc = c)))"

definition siblingColorIs :: "ptr \<Rightarrow> color \<Rightarrow> bool prog" where
  "siblingColorIs n c = bind (sibling n) (\<lambda>sb. bind (getColor sb) (\<lambda>sc. ret (sc = c)))"

definition siblingLeftColorIs :: "ptr \<Rightarrow> color \<Rightarrow> bool prog" where
  "siblingLeftColorIs n c =
     bind (sibling n) (\<lambda>sb. bind (get_left sb) (\<lambda>l. bind (getColor l) (\<lambda>lc. ret (lc = c))))"

definition siblingRightColorIs :: "ptr \<Rightarrow> color \<Rightarrow> bool prog" where
  "siblingRightColorIs n c =
     bind (sibling n) (\<lambda>sb. bind (get_right sb) (\<lambda>r. bind (getColor r) (\<lambda>rc. ret (rc = c))))"

text \<open>\<open>n == n.parent.left\<close> and \<open>n == n.parent.right\<close>, as the deletion cases write them.\<close>

definition isParentsLeft :: "ptr \<Rightarrow> bool prog" where
  "isParentsLeft n = bind (get_parent n) (\<lambda>p. bind (get_left p) (\<lambda>l. ret (n = l)))"

definition isParentsRight :: "ptr \<Rightarrow> bool prog" where
  "isParentsRight n = bind (get_parent n) (\<lambda>p. bind (get_right p) (\<lambda>r. ret (n = r)))"

definition deleteCase5 :: "tree_ptr \<Rightarrow> ptr \<Rightarrow> unit prog" where
  "deleteCase5 t n =
     bind (and_then (isParentsLeft n)
            (and_then (siblingColorIs n black)
            (and_then (siblingLeftColorIs n red)
                      (siblingRightColorIs n black)))) (\<lambda>leftCase.
     bind (if leftCase then
             bind (sibling n) (\<lambda>sb.
             bind (set_color sb red) (\<lambda>u.
             bind (sibling n) (\<lambda>sb.
             bind (get_left sb) (\<lambda>sl.
             bind (set_color sl black) (\<lambda>u.
             bind (sibling n) (\<lambda>sb.
             rotateRight t sb))))))
           else
             bind (and_then (isParentsRight n)
                    (and_then (siblingColorIs n black)
                    (and_then (siblingRightColorIs n red)
                              (siblingLeftColorIs n black)))) (\<lambda>rightCase.
               if rightCase then
                 bind (sibling n) (\<lambda>sb.
                 bind (set_color sb red) (\<lambda>u.
                 bind (sibling n) (\<lambda>sb.
                 bind (get_right sb) (\<lambda>sr.
                 bind (set_color sr black) (\<lambda>u.
                 bind (sibling n) (\<lambda>sb.
                 rotateLeft t sb))))))
               else ret ())) (\<lambda>u.
     bind (sibling n) (\<lambda>sb.
     bind (get_parent n) (\<lambda>p.
     bind (getColor p) (\<lambda>pc.
     bind (set_color sb pc) (\<lambda>u.
     bind (get_parent n) (\<lambda>p.
     bind (set_color p black) (\<lambda>u.
     bind (isParentsLeft n) (\<lambda>isLeft.
       if isLeft then
         bind (siblingRightColorIs n red) (\<lambda>ok.
         bind (doAssert ok) (\<lambda>u.
         bind (sibling n) (\<lambda>sb.
         bind (get_right sb) (\<lambda>sr.
         bind (set_color sr black) (\<lambda>u.
         bind (get_parent n) (\<lambda>p.
         rotateLeft t p))))))
       else
         bind (siblingLeftColorIs n red) (\<lambda>ok.
         bind (doAssert ok) (\<lambda>u.
         bind (sibling n) (\<lambda>sb.
         bind (get_left sb) (\<lambda>sl.
         bind (set_color sl black) (\<lambda>u.
         bind (get_parent n) (\<lambda>p.
         rotateRight t p)))))))))))))))"

partial_function (option) deleteCase1 :: "tree_ptr \<Rightarrow> ptr \<Rightarrow> unit prog" where
  "deleteCase1 t n s =
     bind (get_parent n) (\<lambda>p.
       if p \<noteq> None then
         bind (siblingColorIs n red) (\<lambda>siblingRed.
         bind (if siblingRed then
                 bind (get_parent n) (\<lambda>p.
                 bind (set_color p red) (\<lambda>u.
                 bind (sibling n) (\<lambda>sb.
                 bind (set_color sb black) (\<lambda>u.
                 bind (isParentsLeft n) (\<lambda>isLeft.
                 bind (get_parent n) (\<lambda>p.
                   if isLeft then rotateLeft t p else rotateRight t p))))))
               else ret ()) (\<lambda>u.
         bind (and_then (parentColorIs n black)
                (and_then (siblingColorIs n black)
                (and_then (siblingLeftColorIs n black)
                          (siblingRightColorIs n black)))) (\<lambda>allBlack.
           if allBlack then
             bind (sibling n) (\<lambda>sb.
             bind (set_color sb red) (\<lambda>u.
             bind (get_parent n) (\<lambda>p.
             deleteCase1 t p)))
           else
             bind (and_then (parentColorIs n red)
                    (and_then (siblingColorIs n black)
                    (and_then (siblingLeftColorIs n black)
                              (siblingRightColorIs n black)))) (\<lambda>case4.
               if case4 then
                 bind (sibling n) (\<lambda>sb.
                 bind (set_color sb red) (\<lambda>u.
                 bind (get_parent n) (\<lambda>p.
                 set_color p black)))
               else deleteCase5 t n))))
       else ret ()) s"

definition doDelete :: "tree_ptr \<Rightarrow> ptr \<Rightarrow> unit prog" where
  "doDelete t n =
     bind (and_then (bind (get_left n) (\<lambda>l. ret (l \<noteq> None)))
                    (bind (get_right n) (\<lambda>r. ret (r \<noteq> None)))) (\<lambda>twoChildren.
     bind (if twoChildren
           then bind (maxPredecessor n) (\<lambda>pred. swapNodes t n pred)
           else ret ()) (\<lambda>u.
     bind (get_left n) (\<lambda>l.
     bind (get_right n) (\<lambda>r.
     bind (doAssert (l = None \<or> r = None)) (\<lambda>u.
     bind (ret (if r = None then l else r)) (\<lambda>child.
     bind (get_color n) (\<lambda>nc.
     bind (if nc = black then
             bind (getColor child) (\<lambda>cc.
             bind (set_color n cc) (\<lambda>u.
             deleteCase1 t n))
           else ret ()) (\<lambda>u.
     bind (replaceNode t n child) (\<lambda>u.
     bind (get_parent n) (\<lambda>np.
     bind (if np = None \<and> child \<noteq> None then set_color child black else ret ()) (\<lambda>u.
     bind (decCount t) (\<lambda>u.
     bind (get_count t) (\<lambda>c.
       if c = 0 then
         bind (set_minNode t None) (\<lambda>u. set_maxNode t None)
       else
         bind (get_minNode t) (\<lambda>m.
         bind (if m = n then recomputeMinNode t else ret ()) (\<lambda>u.
         bind (get_maxNode t) (\<lambda>m.
           if m = n then recomputeMaxNode t else ret ()))))))))))))))))"

subsection \<open>Public methods and iterators\<close>

definition Len :: "tree_ptr \<Rightarrow> go_int prog" where
  "Len t = get_count t"

definition Min_iter :: "tree_ptr \<Rightarrow> Iterator prog" where
  "Min_iter t = bind (get_minNode t) (\<lambda>m. ret \<lparr>Iterator.root = t, node = m\<rparr>)"

definition Max_iter :: "tree_ptr \<Rightarrow> Iterator prog" where
  "Max_iter t =
     bind (get_maxNode t) (\<lambda>m.
       if m = None then ret \<lparr>Iterator.root = t, node = negativeLimitNode\<rparr>
       else ret \<lparr>Iterator.root = t, node = m\<rparr>)"

definition Limit :: "tree_ptr \<Rightarrow> Iterator" where
  "Limit t = \<lparr>Iterator.root = t, node = None\<rparr>"

definition NegativeLimit :: "tree_ptr \<Rightarrow> Iterator" where
  "NegativeLimit t = \<lparr>Iterator.root = t, node = negativeLimitNode\<rparr>"

definition FindGE :: "tree_ptr \<Rightarrow> go_int \<Rightarrow> Iterator prog" where
  "FindGE t key = bind (findGE t key) (\<lambda>(n, exact). ret \<lparr>Iterator.root = t, node = n\<rparr>)"

definition FindLE :: "tree_ptr \<Rightarrow> go_int \<Rightarrow> Iterator prog" where
  "FindLE t key =
     bind (findGE t key) (\<lambda>(n, exact).
       if exact then ret \<lparr>Iterator.root = t, node = n\<rparr>
       else if n \<noteq> None then bind (doPrev n) (\<lambda>p. ret \<lparr>Iterator.root = t, node = p\<rparr>)
       else bind (get_maxNode t) (\<lambda>m.
              if m = None then ret \<lparr>Iterator.root = t, node = negativeLimitNode\<rparr>
              else ret \<lparr>Iterator.root = t, node = m\<rparr>))"

definition Iterator_Limit :: "Iterator \<Rightarrow> bool" where
  "Iterator_Limit iter = (node iter = None)"

definition Iterator_NegativeLimit :: "Iterator \<Rightarrow> bool" where
  "Iterator_NegativeLimit iter = (node iter = negativeLimitNode)"

definition Next :: "Iterator \<Rightarrow> Iterator prog" where
  "Next iter =
     bind (doAssert (\<not> Iterator_Limit iter)) (\<lambda>u.
       if Iterator_NegativeLimit iter
       then bind (get_minNode (Iterator.root iter)) (\<lambda>m.
              ret \<lparr>Iterator.root = Iterator.root iter, node = m\<rparr>)
       else bind (doNext (node iter)) (\<lambda>m.
              ret \<lparr>Iterator.root = Iterator.root iter, node = m\<rparr>))"

definition Prev :: "Iterator \<Rightarrow> Iterator prog" where
  "Prev iter =
     bind (doAssert (\<not> Iterator_NegativeLimit iter)) (\<lambda>u.
       if \<not> Iterator_Limit iter
       then bind (doPrev (node iter)) (\<lambda>m.
              ret \<lparr>Iterator.root = Iterator.root iter, node = m\<rparr>)
       else bind (get_maxNode (Iterator.root iter)) (\<lambda>m.
              if m = None
              then ret \<lparr>Iterator.root = Iterator.root iter, node = negativeLimitNode\<rparr>
              else ret \<lparr>Iterator.root = Iterator.root iter, node = m\<rparr>))"

definition DeleteWithIterator :: "tree_ptr \<Rightarrow> Iterator \<Rightarrow> unit prog" where
  "DeleteWithIterator t iter =
     bind (doAssert (\<not> Iterator_Limit iter \<and> \<not> Iterator_NegativeLimit iter)) (\<lambda>u.
     doDelete t (node iter))"

definition DeleteWithKey :: "tree_ptr \<Rightarrow> go_int \<Rightarrow> bool prog" where
  "DeleteWithKey t key =
     bind (FindGE t key) (\<lambda>iter.
       if node iter \<noteq> None
       then bind (DeleteWithIterator t iter) (\<lambda>u. ret True)
       else ret False)"

subsection \<open>Copy\<close>

text \<open>\<open>node.copy\<close>: the copy \<open>copyN\<close> is a new node, returned by address.\<close>

partial_function (option) copy :: "ptr \<Rightarrow> ptr prog" where
  "copy n s =
     bind (get_node n) (\<lambda>nd.
     bind (new_node nd) (\<lambda>copyN.
     bind (if left nd \<noteq> None then
             bind (copy (left nd)) (\<lambda>l.
             bind (set_left copyN l) (\<lambda>u.
             set_parent l copyN))
           else ret ()) (\<lambda>u.
     bind (if right nd \<noteq> None then
             bind (copy (right nd)) (\<lambda>r.
             bind (set_right copyN r) (\<lambda>u.
             set_parent r copyN))
           else ret ()) (\<lambda>u.
     ret copyN)))) s"

text \<open>The breadth-first loop of \<open>Copy\<close> over the queue \<open>nodes\<close> (here \<open>queue\<close>).\<close>

partial_function (option) copyScan :: "tree_ptr \<Rightarrow> Item \<Rightarrow> Item \<Rightarrow> ptr list \<Rightarrow> unit prog" where
  "copyScan treeCopy minItem maxItem queue s =
     (if length queue > 0 then
        bind (get_item (hd queue)) (\<lambda>ni.
        bind (if ni = minItem then set_minNode treeCopy (hd queue) else ret ()) (\<lambda>u.
        bind (if ni = maxItem then set_maxNode treeCopy (hd queue) else ret ()) (\<lambda>u.
        bind (get_tree treeCopy) (\<lambda>tc.
          if minNode tc \<noteq> None \<and> maxNode tc \<noteq> None then ret ()
          else
            bind (get_left (hd queue)) (\<lambda>l.
            bind (get_right (hd queue)) (\<lambda>r.
              copyScan treeCopy minItem maxItem
                (tl queue @ (if l \<noteq> None then [l] else []) @ (if r \<noteq> None then [r] else [])))))))) 
      else ret ()) s"

definition Copy :: "tree_ptr \<Rightarrow> tree_ptr prog" where
  "Copy t =
     bind (get_minNode t) (\<lambda>m.
     bind (get_item m) (\<lambda>minItem.
     bind (get_maxNode t) (\<lambda>m.
     bind (get_item m) (\<lambda>maxItem.
     bind (get_root t) (\<lambda>r.
     bind (copy r) (\<lambda>rootCopy.
     bind (get_count t) (\<lambda>c.
     bind (new_tree (zero_tree\<lparr>RBTree.root := rootCopy, count := c\<rparr>)) (\<lambda>treeCopy.
     bind (copyScan treeCopy minItem maxItem [rootCopy]) (\<lambda>u.
     ret treeCopy)))))))))"

text \<open>A new tree is the zero value \<open>&RBTree{}\<close>; rbtree.go has no constructor.\<close>

definition newRBTree :: "tree_ptr prog" where
  "newRBTree = new_tree zero_tree"


declare descendLeft.simps [code] climbNext.simps [code] descendRight.simps [code]
  climbPrev.simps [code] recomputeMinLoop.simps [code] recomputeMaxLoop.simps [code]
  doInsertLoop.simps [code] findGELoop.simps [code] insertFix.simps [code]
  deleteCase1.simps [code] copy.simps [code] copyScan.simps [code]

subsection \<open>Trees in the heap\<close>

text \<open>
  The shape of a tree: its node addresses. \<open>shape_at s p par sh\<close>: in the heap \<open>s\<close> the
  pointer \<open>p\<close> is the root of a tree of shape \<open>sh\<close> whose root has the parent \<open>par\<close>, with
  every parent pointer below set.
\<close>

datatype shape = Leaf | Node shape nat shape

fun addrs :: "shape \<Rightarrow> nat list" where
  "addrs Leaf = []"
| "addrs (Node l a r) = addrs l @ a # addrs r"

fun shape_at :: "heap \<Rightarrow> ptr \<Rightarrow> ptr \<Rightarrow> shape \<Rightarrow> bool" where
  "shape_at s p par Leaf \<longleftrightarrow> p = None"
| "shape_at s p par (Node l a r) \<longleftrightarrow>
     p = Some a \<and> parent (nodes s a) = par
     \<and> shape_at s (left (nodes s a)) (Some a) l
     \<and> shape_at s (right (nodes s a)) (Some a) r"

definition key_of :: "heap \<Rightarrow> nat \<Rightarrow> go_int" where
  "key_of s a = Key (item (nodes s a))"

text \<open>
  \<open>tree_rep s t sh\<close>: the header at \<open>t\<close> is a search tree of shape \<open>sh\<close>: allocated,
  distinct nodes other than the node of \<open>negativeLimitNode\<close>, keys strictly increasing
  in order, \<open>minNode\<close> and \<open>maxNode\<close> the first and the last node, \<open>count\<close> the number of
  nodes.
\<close>

definition tree_rep :: "heap \<Rightarrow> nat \<Rightarrow> shape \<Rightarrow> bool" where
  "tree_rep s t sh \<longleftrightarrow>
     t < tree_top s
     \<and> shape_at s (RBTree.root (trees s t)) None sh
     \<and> distinct (addrs sh)
     \<and> list_all (\<lambda>a. 0 < a \<and> a < node_top s) (addrs sh)
     \<and> sorted_wrt (\<lambda>x y. x <s y) (map (key_of s) (addrs sh))
     \<and> minNode (trees s t) = (if addrs sh = [] then None else Some (hd (addrs sh)))
     \<and> maxNode (trees s t) = (if addrs sh = [] then None else Some (last (addrs sh)))
     \<and> count (trees s t) = of_nat (length (addrs sh))"

text \<open>An iterator is at the minimum (maximum) element of the tree of shape \<open>sh\<close>.\<close>

definition at_minimum :: "heap \<Rightarrow> shape \<Rightarrow> Iterator \<Rightarrow> bool" where
  "at_minimum s sh iter \<longleftrightarrow>
     (\<exists>a. node iter = Some a \<and> a \<in> set (addrs sh)
          \<and> list_all (\<lambda>b. key_of s a \<le>s key_of s b) (addrs sh))"

definition at_maximum :: "heap \<Rightarrow> shape \<Rightarrow> Iterator \<Rightarrow> bool" where
  "at_maximum s sh iter \<longleftrightarrow>
     (\<exists>a. node iter = Some a \<and> a \<in> set (addrs sh)
          \<and> list_all (\<lambda>b. key_of s b \<le>s key_of s a) (addrs sh))"

text \<open>What a program returns from a heap, when it returns.\<close>

definition returns :: "'a prog \<Rightarrow> heap \<Rightarrow> ('a \<Rightarrow> heap \<Rightarrow> bool) \<Rightarrow> bool" where
  "returns m s P =
     (case m s of Some (Inr (x, s')) \<Rightarrow> P x s' | Some (Inl e) \<Rightarrow> False | None \<Rightarrow> False)"

definition heap_after :: "'a prog \<Rightarrow> heap \<Rightarrow> heap" where
  "heap_after m s = (case m s of Some (Inr (x, s')) \<Rightarrow> s' | Some (Inl e) \<Rightarrow> s | None \<Rightarrow> s)"

lemma Next_NegativeLimit:
  "Next (NegativeLimit (Some t)) s
     = Some (Inr (\<lparr>Iterator.root = Some t, node = minNode (trees s t)\<rparr>, s))"
  by (simp add: Next_def NegativeLimit_def doAssert_def Iterator_Limit_def
      Iterator_NegativeLimit_def negativeLimitNode_def bind_def ret_def get_minNode_def
      get_tree_def)

lemma Prev_Limit:
  "Prev (Limit (Some t)) s
     = Some (Inr (\<lparr>Iterator.root = Some t,
                   node = (if maxNode (trees s t) = None then negativeLimitNode
                           else maxNode (trees s t))\<rparr>, s))"
  by (simp add: Prev_def Limit_def doAssert_def Iterator_Limit_def
      Iterator_NegativeLimit_def negativeLimitNode_def bind_def ret_def get_maxNode_def
      get_tree_def)

lemma sorted_hd_least:
  assumes "sorted_wrt (\<lambda>x y. x <s y) (map f xs)" and "xs \<noteq> []"
  shows "list_all (\<lambda>b. f (hd xs) \<le>s f b) xs"
proof (cases xs)
  case Nil
  thus ?thesis using assms by simp
next
  case (Cons x ys)
  hence "\<forall>y\<in>set ys. f x <s f y" using assms by simp
  thus ?thesis using Cons by (auto simp add: list_all_iff word_sless_alt word_sle_eq)
qed

lemma sorted_last_greatest:
  assumes "sorted_wrt (\<lambda>x y. x <s y) (map f xs)" and "xs \<noteq> []"
  shows "list_all (\<lambda>b. f b \<le>s f (last xs)) xs"
proof -
  obtain ys x where xs: "xs = ys @ [x]" using assms(2) by (metis rev_exhaust)
  hence "\<forall>y\<in>set ys. f y <s f x" using assms by (simp add: sorted_wrt_append)
  thus ?thesis using xs by (auto simp add: list_all_iff word_sless_alt word_sle_eq)
qed

text \<open>
  \<open>Next\<close> on \<open>NegativeLimit\<close> returns what \<open>Min\<close> returns, the iterator at the cached
  \<open>minNode\<close>, and \<open>Prev\<close> on \<open>Limit\<close> what \<open>Max\<close> returns, in every heap. So on a tree
  within \<open>tree_rep\<close> they are at the minimum and the maximum element when the tree is not
  empty, and they are the \<open>Limit\<close> and the \<open>NegativeLimit\<close> iterator when it is empty.
\<close>

lemma Next_NegativeLimit_Min: "Next (NegativeLimit (Some t)) s = Min_iter (Some t) s"
  by (simp add: Next_NegativeLimit Min_iter_def get_minNode_def get_tree_def bind_def ret_def)

lemma Prev_Limit_Max: "Prev (Limit (Some t)) s = Max_iter (Some t) s"
  by (simp add: Prev_Limit Max_iter_def get_maxNode_def get_tree_def bind_def ret_def)

lemma limits_step_to_ends:
  assumes "tree_rep s t sh"
  shows "(\<exists>iter. Next (NegativeLimit (Some t)) s = Some (Inr (iter, s))
            \<and> Iterator.root iter = Some t
            \<and> (if sh = Leaf then iter = Limit (Some t) else at_minimum s sh iter))
       \<and> (\<exists>iter. Prev (Limit (Some t)) s = Some (Inr (iter, s))
            \<and> Iterator.root iter = Some t
            \<and> (if sh = Leaf then iter = NegativeLimit (Some t) else at_maximum s sh iter))"
proof (cases sh)
  case Leaf
  thus ?thesis using assms Next_NegativeLimit[of t s] Prev_Limit[of t s]
    by (simp add: tree_rep_def Limit_def NegativeLimit_def)
next
  case (Node l a r)
  hence ne: "addrs sh \<noteq> []" by simp
  have srt: "sorted_wrt (\<lambda>x y. x <s y) (map (key_of s) (addrs sh))"
    and mn: "minNode (trees s t) = Some (hd (addrs sh))"
    and mx: "maxNode (trees s t) = Some (last (addrs sh))"
    using assms ne by (simp_all add: tree_rep_def)
  have "at_minimum s sh \<lparr>Iterator.root = Some t, node = Some (hd (addrs sh))\<rparr>"
    using sorted_hd_least[OF srt ne] ne by (auto simp add: at_minimum_def)
  moreover have "at_maximum s sh \<lparr>Iterator.root = Some t, node = Some (last (addrs sh))\<rparr>"
    using sorted_last_greatest[OF srt ne] ne by (auto simp add: at_maximum_def)
  ultimately show ?thesis using Node
    by (simp add: Next_NegativeLimit Prev_Limit mn mx)
qed

text \<open>The empty tree, and the tree after inserting the keys 1 and 2.\<close>

definition empty_tree_heap :: heap where
  "empty_tree_heap = heap_after newRBTree init_heap"

definition insert_1_2 :: "tree_ptr prog" where
  "insert_1_2 =
     bind newRBTree (\<lambda>t.
     bind (Insert t \<lparr>Key = 1, Value = 10\<rparr>) (\<lambda>r1.
     bind (Insert t \<lparr>Key = 2, Value = 20\<rparr>) (\<lambda>r2.
     ret t)))"

lemma insert_1_2_rep:
  "tree_rep (heap_after insert_1_2 init_heap) 0 (Node Leaf 1 (Node Leaf 2 Leaf))"
  by code_simp

lemma empty_tree_rep: "tree_rep empty_tree_heap 0 Leaf"
  by code_simp

lemma limits_step_to_ends_witness:
  "tree_rep (heap_after insert_1_2 init_heap) 0 (Node Leaf 1 (Node Leaf 2 Leaf))
   \<and> (\<exists>iter. Next (NegativeLimit (Some 0)) (heap_after insert_1_2 init_heap)
               = Some (Inr (iter, heap_after insert_1_2 init_heap))
          \<and> at_minimum (heap_after insert_1_2 init_heap) (Node Leaf 1 (Node Leaf 2 Leaf)) iter)
   \<and> (\<exists>iter. Prev (Limit (Some 0)) (heap_after insert_1_2 init_heap)
               = Some (Inr (iter, heap_after insert_1_2 init_heap))
          \<and> at_maximum (heap_after insert_1_2 init_heap) (Node Leaf 1 (Node Leaf 2 Leaf)) iter)
   \<and> tree_rep empty_tree_heap 0 Leaf
   \<and> Next (NegativeLimit (Some 0)) empty_tree_heap = Some (Inr (Limit (Some 0), empty_tree_heap))
   \<and> Prev (Limit (Some 0)) empty_tree_heap
       = Some (Inr (NegativeLimit (Some 0), empty_tree_heap))"
  using limits_step_to_ends [OF insert_1_2_rep] limits_step_to_ends [OF empty_tree_rep]
    insert_1_2_rep empty_tree_rep
  by auto

text \<open>
  On the empty tree \<open>Next\<close> on \<open>NegativeLimit\<close> returns the \<open>Limit\<close> iterator and \<open>Prev\<close>
  on \<open>Limit\<close> the \<open>NegativeLimit\<close> iterator, as \<open>Min\<close> and \<open>Max\<close> document; neither is at
  an element.
\<close>

lemma limits_step_empty:
  "tree_rep empty_tree_heap 0 Leaf
   \<and> returns (Next (NegativeLimit (Some 0))) empty_tree_heap
        (\<lambda>iter s. iter = Limit (Some 0) \<and> \<not> at_minimum s Leaf iter)
   \<and> returns (Prev (Limit (Some 0))) empty_tree_heap
        (\<lambda>iter s. iter = NegativeLimit (Some 0) \<and> \<not> at_maximum s Leaf iter)"
proof -
  have "minNode (trees empty_tree_heap 0) = None" "maxNode (trees empty_tree_heap 0) = None"
    using empty_tree_rep by (simp_all add: tree_rep_def)
  thus ?thesis
    using empty_tree_rep Next_NegativeLimit[of 0 empty_tree_heap] Prev_Limit[of 0 empty_tree_heap]
    by (simp add: returns_def at_minimum_def at_maximum_def Limit_def NegativeLimit_def)
qed

text \<open>
  C10. \<open>Copy\<close> on a tree whose \<open>minNode\<close> is nil, as that of the empty tree is, panics with a
  nil dereference at its first statement.
\<close>

theorem Copy_empty_panics:
  assumes "tree_rep s t Leaf"
  shows "Copy (Some t) s = Some (Inl NilDereference)"
  using assms
  by (simp add: Copy_def tree_rep_def bind_def get_minNode_def get_tree_def ret_def
      get_item_def get_node_def)

theorem Copy_empty_panics_witness:
  "tree_rep empty_tree_heap 0 Leaf \<and> Copy (Some 0) empty_tree_heap = Some (Inl NilDereference)"
  using Copy_empty_panics [OF empty_tree_rep] empty_tree_rep by simp


text \<open>
  C4 fails on the code. The tree holds the single key \<open>-2\<close>; for the key
  \<open>k = 2^63 - 1\<close> the comparison \<open>comp := key - n.item.Key\<close> of \<open>findGE\<close> wraps to a
  negative number, the search turns left, and \<open>FindGE\<close> returns the iterator at \<open>-2\<close>
  although every stored key is below \<open>k\<close> (C4: \<open>Limit\<close>), and \<open>FindLE\<close> returns
  \<open>NegativeLimit\<close> although \<open>-2 \<le> k\<close> is stored (C4: the iterator at \<open>-2\<close>).
\<close>

definition insert_minus_2 :: "tree_ptr prog" where
  "insert_minus_2 =
     bind newRBTree (\<lambda>t.
     bind (Insert t \<lparr>Key = - 2, Value = 0\<rparr>) (\<lambda>r1.
     ret t))"

theorem find_wraps:
  "tree_rep (heap_after insert_minus_2 init_heap) 0 (Node Leaf 1 Leaf)
   \<and> sint (key_of (heap_after insert_minus_2 init_heap) 1) = - 2
   \<and> returns (FindGE (Some 0) 9223372036854775807) (heap_after insert_minus_2 init_heap)
        (\<lambda>iter s. node iter = Some 1 \<and> iter \<noteq> Limit (Some 0)
                  \<and> key_of s 1 <s 9223372036854775807)
   \<and> returns (FindLE (Some 0) 9223372036854775807) (heap_after insert_minus_2 init_heap)
        (\<lambda>iter s. iter = NegativeLimit (Some 0) \<and> key_of s 1 \<le>s 9223372036854775807)"
  by code_simp

text \<open>
  C1 fails on the code. From the empty tree, \<open>Insert\<close> of the key \<open>-2\<close> and then of the key
  \<open>2^63 - 1\<close>: the comparison \<open>comp := item.Key - parent.item.Key\<close> of \<open>doInsert\<close> wraps
  to a negative number and the larger key becomes the left child of \<open>-2\<close>. The tree is a
  search tree after the first \<open>Insert\<close> and not after the second: its keys in order are
  \<open>2^63 - 1, -2\<close>.
\<close>

definition insert_wrapping :: "tree_ptr prog" where
  "insert_wrapping =
     bind newRBTree (\<lambda>t.
     bind (Insert t \<lparr>Key = - 2, Value = 0\<rparr>) (\<lambda>r1.
     bind (Insert t \<lparr>Key = 9223372036854775807, Value = 0\<rparr>) (\<lambda>r2.
     ret t)))"

theorem insert_wraps:
  "tree_rep (heap_after insert_minus_2 init_heap) 0 (Node Leaf 1 Leaf)
   \<and> returns insert_wrapping init_heap
        (\<lambda>t s. t = Some 0
           \<and> shape_at s (RBTree.root (trees s 0)) None (Node (Node Leaf 2 Leaf) 1 Leaf)
           \<and> map (\<lambda>a. sint (key_of s a)) (addrs (Node (Node Leaf 2 Leaf) 1 Leaf))
               = [9223372036854775807, - 2]
           \<and> \<not> sorted_wrt (\<lambda>x y. x <s y)
                 (map (key_of s) (addrs (Node (Node Leaf 2 Leaf) 1 Leaf)))
           \<and> \<not> tree_rep s 0 (Node (Node Leaf 2 Leaf) 1 Leaf)
           \<and> count (trees s 0) = 2)"
  by code_simp

text \<open>
  The same two keys in the other order: the comparison wraps to a positive number and the
  smaller key becomes the right child of \<open>2^63 - 1\<close>.
\<close>

definition insert_wrapping_right :: "tree_ptr prog" where
  "insert_wrapping_right =
     bind newRBTree (\<lambda>t.
     bind (Insert t \<lparr>Key = 9223372036854775807, Value = 0\<rparr>) (\<lambda>r1.
     bind (Insert t \<lparr>Key = - 2, Value = 0\<rparr>) (\<lambda>r2.
     ret t)))"

text \<open>The cached ends of the two trees: \<open>minNode\<close> and \<open>maxNode\<close> stay at the first node.\<close>

lemma insert_wrapping_ends:
  "returns insert_wrapping init_heap (\<lambda>t s. t = Some 0)"
  "shape_at (heap_after insert_wrapping init_heap)
     (RBTree.root (trees (heap_after insert_wrapping init_heap) 0)) None
     (Node (Node Leaf 2 Leaf) 1 Leaf)"
  "sint (key_of (heap_after insert_wrapping init_heap) 1) = - 2"
  "sint (key_of (heap_after insert_wrapping init_heap) 2) = 9223372036854775807"
  "maxNode (trees (heap_after insert_wrapping init_heap) 0) = Some 1"
  "key_of (heap_after insert_wrapping init_heap) 1 <s key_of (heap_after insert_wrapping init_heap) 2"
  by code_simp+

lemma insert_wrapping_right_ends:
  "returns insert_wrapping_right init_heap (\<lambda>t s. t = Some 0)"
  "shape_at (heap_after insert_wrapping_right init_heap)
     (RBTree.root (trees (heap_after insert_wrapping_right init_heap) 0)) None
     (Node Leaf 1 (Node Leaf 2 Leaf))"
  "sint (key_of (heap_after insert_wrapping_right init_heap) 1) = 9223372036854775807"
  "sint (key_of (heap_after insert_wrapping_right init_heap) 2) = - 2"
  "minNode (trees (heap_after insert_wrapping_right init_heap) 0) = Some 1"
  "key_of (heap_after insert_wrapping_right init_heap) 2
     <s key_of (heap_after insert_wrapping_right init_heap) 1"
  by code_simp+

text \<open>
  C6 fails on the code. After \<open>Insert\<close> of the key \<open>-2\<close> and then of the key \<open>2^63 - 1\<close> on
  the empty tree, the tree holds the two keys, at the nodes 1 and 2, and \<open>Prev\<close> on \<open>Limit\<close>
  returns the iterator at the node 1, of the key \<open>-2\<close>, which is not the maximum element:
  \<open>2^63 - 1\<close> is stored. After \<open>Insert\<close> of \<open>2^63 - 1\<close> and then of \<open>-2\<close>, \<open>Next\<close> on
  \<open>NegativeLimit\<close> returns the iterator at the node 1, of the key \<open>2^63 - 1\<close>, which is not
  the minimum element: \<open>-2\<close> is stored. In both the comparison of \<open>doInsert\<close> wraps, the new
  node is linked on the wrong side, and the end on that side is the only one that \<open>doInsert\<close>
  looks at.
\<close>

theorem limits_step_wraps:
  "returns insert_wrapping init_heap (\<lambda>t s. t = Some 0)
   \<and> shape_at (heap_after insert_wrapping init_heap)
        (RBTree.root (trees (heap_after insert_wrapping init_heap) 0)) None
        (Node (Node Leaf 2 Leaf) 1 Leaf)
   \<and> sint (key_of (heap_after insert_wrapping init_heap) 1) = - 2
   \<and> sint (key_of (heap_after insert_wrapping init_heap) 2) = 9223372036854775807
   \<and> returns (Prev (Limit (Some 0))) (heap_after insert_wrapping init_heap)
        (\<lambda>iter s. node iter = Some 1 \<and> \<not> at_maximum s (Node (Node Leaf 2 Leaf) 1 Leaf) iter)
   \<and> returns insert_wrapping_right init_heap (\<lambda>t s. t = Some 0)
   \<and> shape_at (heap_after insert_wrapping_right init_heap)
        (RBTree.root (trees (heap_after insert_wrapping_right init_heap) 0)) None
        (Node Leaf 1 (Node Leaf 2 Leaf))
   \<and> sint (key_of (heap_after insert_wrapping_right init_heap) 1) = 9223372036854775807
   \<and> sint (key_of (heap_after insert_wrapping_right init_heap) 2) = - 2
   \<and> returns (Next (NegativeLimit (Some 0))) (heap_after insert_wrapping_right init_heap)
        (\<lambda>iter s. node iter = Some 1 \<and> \<not> at_minimum s (Node Leaf 1 (Node Leaf 2 Leaf)) iter)"
proof -
  let ?s = "heap_after insert_wrapping init_heap"
  let ?r = "heap_after insert_wrapping_right init_heap"
  have "\<not> key_of ?s 2 \<le>s key_of ?s 1"
    using insert_wrapping_ends(6) by (simp add: word_sless_alt word_sle_eq)
  hence mx: "\<not> at_maximum ?s (Node (Node Leaf 2 Leaf) 1 Leaf) \<lparr>Iterator.root = Some 0, node = Some 1\<rparr>"
    by (simp add: at_maximum_def)
  have "\<not> key_of ?r 1 \<le>s key_of ?r 2"
    using insert_wrapping_right_ends(6) by (simp add: word_sless_alt word_sle_eq)
  hence mn: "\<not> at_minimum ?r (Node Leaf 1 (Node Leaf 2 Leaf)) \<lparr>Iterator.root = Some 0, node = Some 1\<rparr>"
    by (simp add: at_minimum_def)
  have prev: "returns (Prev (Limit (Some 0))) ?s
                (\<lambda>iter s. node iter = Some 1 \<and> \<not> at_maximum s (Node (Node Leaf 2 Leaf) 1 Leaf) iter)"
    using mx by (simp add: returns_def Prev_Limit insert_wrapping_ends(5))
  have nxt: "returns (Next (NegativeLimit (Some 0))) ?r
               (\<lambda>iter s. node iter = Some 1 \<and> \<not> at_minimum s (Node Leaf 1 (Node Leaf 2 Leaf)) iter)"
    using mn by (simp add: returns_def Next_NegativeLimit insert_wrapping_right_ends(5))
  show ?thesis
    using insert_wrapping_ends(1-4) insert_wrapping_right_ends(1-4) prev nxt by simp
qed


section \<open>Copy is a deep copy (rbtree/rbtree.go)\<close>

subsection \<open>The footprint of a tree\<close>

text \<open>
  A set \<open>A\<close> of node addresses is a footprint of the tree \<open>t\<close> when the pointers of the
  nodes in \<open>A\<close> and those of the header of \<open>t\<close> are nil or lead into \<open>A\<close>. The
  pointer \<open>p\<close> is nil or leads into \<open>A\<close>:
\<close>

definition inside :: "nat set \<Rightarrow> ptr \<Rightarrow> bool" where
  "inside A p \<longleftrightarrow> (case p of None \<Rightarrow> True | Some a \<Rightarrow> a \<in> A)"

definition owns :: "heap \<Rightarrow> nat \<Rightarrow> nat set \<Rightarrow> bool" where
  "owns s t A \<longleftrightarrow>
     (\<forall>a\<in>A. a < node_top s \<and> inside A (parent (nodes s a)) \<and> inside A (left (nodes s a))
              \<and> inside A (right (nodes s a)))
     \<and> inside A (RBTree.root (trees s t)) \<and> inside A (minNode (trees s t))
     \<and> inside A (maxNode (trees s t))"

text \<open>
  From \<open>s\<close> to \<open>s'\<close> nothing changes but the nodes of \<open>A\<close>, the header of \<open>t\<close> and the
  nodes allocated on the way; \<open>grown\<close> adds these to the footprint.
\<close>

definition frame :: "nat \<Rightarrow> nat set \<Rightarrow> heap \<Rightarrow> heap \<Rightarrow> bool" where
  "frame t A s s' \<longleftrightarrow>
     node_top s \<le> node_top s' \<and> tree_top s' = tree_top s
     \<and> (\<forall>a. a < node_top s \<longrightarrow> a \<notin> A \<longrightarrow> nodes s' a = nodes s a)
     \<and> (\<forall>t'. t' \<noteq> t \<longrightarrow> trees s' t' = trees s t')"

definition grown :: "nat set \<Rightarrow> heap \<Rightarrow> heap \<Rightarrow> nat set" where
  "grown A s s' = A \<union> {node_top s..<node_top s'}"

text \<open>
  A program is confined to the tree \<open>t\<close> when each of its runs that returns, from a heap
  where \<open>t\<close> has the footprint \<open>A\<close> and the pointers \<open>X\<close> it is given lead into \<open>A\<close>,
  keeps the footprint, changes nothing outside it, and returns pointers \<open>R\<close> into it.
\<close>

definition confined :: "nat \<Rightarrow> ptr set \<Rightarrow> 'a prog \<Rightarrow> ('a \<Rightarrow> ptr set) \<Rightarrow> bool" where
  "confined t X m R \<longleftrightarrow>
     (\<forall>s A x s'. owns s t A \<longrightarrow> (\<forall>p\<in>X. inside A p) \<longrightarrow> m s = Some (Inr (x, s')) \<longrightarrow>
        owns s' t (grown A s s') \<and> frame t A s s' \<and> (\<forall>p\<in>R x. inside (grown A s s') p))"

lemma inside_mono: "inside A p \<Longrightarrow> A \<subseteq> B \<Longrightarrow> inside B p"
  by (auto simp add: inside_def split: option.splits)

lemma inside_None [simp]: "inside A None"
  by (simp add: inside_def)

lemma inside_Some [simp]: "inside A (Some a) \<longleftrightarrow> a \<in> A"
  by (simp add: inside_def)

lemma grown_same [simp]: "grown A s s = A"
  by (simp add: grown_def)

lemma frame_refl [simp]: "frame t A s s"
  by (simp add: frame_def)

lemma grown_trans:
  "node_top s \<le> node_top s' \<Longrightarrow> node_top s' \<le> node_top s''
   \<Longrightarrow> grown (grown A s s') s' s'' = grown A s s''"
  by (auto simp add: grown_def)

lemma frame_trans:
  assumes "frame t A s s'" and "frame t (grown A s s') s' s''"
  shows "frame t A s s''"
  using assms unfolding frame_def grown_def
  by (metis Un_iff atLeastLessThan_iff le_trans not_le linorder_not_less order_less_le_trans)

lemma confined_bind:
  assumes "confined t X m R1" and "\<And>x. confined t (X \<union> R1 x) (f x) R2"
  shows "confined t X (bind m f) R2"
  unfolding confined_def
proof (intro allI impI)
  fix s A y s''
  assume o: "owns s t A" and X: "\<forall>p\<in>X. inside A p" and run: "bind m f s = Some (Inr (y, s''))"
  from run obtain x s' where m: "m s = Some (Inr (x, s'))" and f: "f x s' = Some (Inr (y, s''))"
    by (auto simp add: bind_def split: option.splits sum.splits)
  from assms(1) o X m have 1: "owns s' t (grown A s s')" "frame t A s s'"
      "\<forall>p\<in>R1 x. inside (grown A s s') p"
    unfolding confined_def by blast+
  have "\<forall>p\<in>X \<union> R1 x. inside (grown A s s') p"
    using X 1(3) by (auto intro: inside_mono simp add: grown_def)
  with assms(2)[of x] 1(1) f have 2: "owns s'' t (grown (grown A s s') s' s'')"
      "frame t (grown A s s') s' s''" "\<forall>p\<in>R2 y. inside (grown (grown A s s') s' s'') p"
    unfolding confined_def by blast+
  have g: "grown (grown A s s') s' s'' = grown A s s''"
    using 1(2) 2(2) by (intro grown_trans) (simp_all add: frame_def)
  show "owns s'' t (grown A s s'') \<and> frame t A s s'' \<and> (\<forall>p\<in>R2 y. inside (grown A s s'') p)"
    using 2 g frame_trans[OF 1(2) 2(2)] by simp
qed

lemma confined_weaken:
  assumes "confined t X m R" and "X \<subseteq> X'" and "\<And>x. R' x \<subseteq> R x"
  shows "confined t X' m R'"
  using assms unfolding confined_def by (meson subsetD)

lemma confined_if:
  assumes "c \<Longrightarrow> confined t X m1 R" and "\<not> c \<Longrightarrow> confined t X m2 R"
  shows "confined t X (if c then m1 else m2) R"
  using assms by simp

lemma confined_ret:
  assumes "R x \<subseteq> insert None X"
  shows "confined t X (ret x) R"
  using assms by (auto simp add: confined_def ret_def)

lemma confined_panic: "confined t X (panic e) R"
  by (simp add: confined_def panic_def)

lemma confined_doAssert: "confined t X (doAssert b) (\<lambda>u. {})"
  by (simp add: doAssert_def confined_ret confined_panic)

lemma confined_get_node:
  assumes "p \<in> insert None X"
  shows "confined t X (get_node p) (\<lambda>nd. {parent nd, left nd, right nd})"
  using assms
  by (auto simp add: confined_def get_node_def owns_def split: option.splits)

lemma confined_set_node:
  assumes "p \<in> insert None X"
    and "\<And>nd. {parent (f nd), left (f nd), right (f nd)}
            \<subseteq> {parent nd, left nd, right nd} \<union> insert None X"
  shows "confined t X (set_node p f) (\<lambda>u. {})"
  unfolding confined_def
proof (intro allI impI)
  fix s A x s'
  assume o: "owns s t A" and X: "\<forall>p\<in>X. inside A p" and run: "set_node p f s = Some (Inr (x, s'))"
  from run obtain a where p: "p = Some a" and s': "s' = s\<lparr>nodes := (nodes s)(a := f (nodes s a))\<rparr>"
    by (auto simp add: set_node_def split: option.splits)
  have a: "a \<in> A" using X assms(1) p by auto
  have new: "inside A (parent (f (nodes s a)))" "inside A (left (f (nodes s a)))"
      "inside A (right (f (nodes s a)))"
    using assms(2)[of "nodes s a"] o a X by (auto simp add: owns_def)
  have "owns s' t A"
    using o new unfolding owns_def s' by auto
  moreover have "frame t A s s'"
    using a by (auto simp add: frame_def s')
  ultimately show "owns s' t (grown A s s') \<and> frame t A s s' \<and> (\<forall>p\<in>{}. inside (grown A s s') p)"
    by (simp add: grown_def s')
qed

lemma confined_new_node:
  assumes "{parent n, left n, right n} \<subseteq> insert None X"
  shows "confined t X (new_node n) (\<lambda>p. {p})"
  unfolding confined_def
proof (intro allI impI)
  fix s A x s'
  assume o: "owns s t A" and X: "\<forall>p\<in>X. inside A p" and run: "new_node n s = Some (Inr (x, s'))"
  from run have x: "x = Some (node_top s)"
    and s': "s' = s\<lparr>nodes := (nodes s)(node_top s := n), node_top := node_top s + 1\<rparr>"
    by (auto simp add: new_node_def)
  have g: "grown A s s' = insert (node_top s) A" by (auto simp add: grown_def s')
  have n: "inside A (parent n)" "inside A (left n)" "inside A (right n)" using assms X by auto
  have notin: "node_top s \<notin> A" using o by (auto simp add: owns_def)
  have "owns s' t (insert (node_top s) A)"
    unfolding owns_def
  proof (intro conjI ballI)
    fix a assume a: "a \<in> insert (node_top s) A"
    show "a < node_top s'" using a o by (auto simp add: s' owns_def)
    show "inside (insert (node_top s) A) (parent (nodes s' a))"
      using a o n notin by (auto simp add: s' owns_def intro: inside_mono)
    show "inside (insert (node_top s) A) (left (nodes s' a))"
      using a o n notin by (auto simp add: s' owns_def intro: inside_mono)
    show "inside (insert (node_top s) A) (right (nodes s' a))"
      using a o n notin by (auto simp add: s' owns_def intro: inside_mono)
  next
    show "inside (insert (node_top s) A) (RBTree.root (trees s' t))"
      using o by (auto simp add: s' owns_def intro: inside_mono)
    show "inside (insert (node_top s) A) (minNode (trees s' t))"
      using o by (auto simp add: s' owns_def intro: inside_mono)
    show "inside (insert (node_top s) A) (maxNode (trees s' t))"
      using o by (auto simp add: s' owns_def intro: inside_mono)
  qed
  moreover have "frame t A s s'" by (auto simp add: frame_def s')
  ultimately show "owns s' t (grown A s s') \<and> frame t A s s' \<and> (\<forall>p\<in>{x}. inside (grown A s s') p)"
    by (simp add: g x)
qed

lemma confined_get_tree:
  "confined t X (get_tree (Some t)) (\<lambda>tr. {RBTree.root tr, minNode tr, maxNode tr})"
  by (auto simp add: confined_def get_tree_def owns_def)

lemma confined_set_tree:
  assumes "\<And>tr. {RBTree.root (f tr), minNode (f tr), maxNode (f tr)}
             \<subseteq> {RBTree.root tr, minNode tr, maxNode tr} \<union> insert None X"
  shows "confined t X (set_tree (Some t) f) (\<lambda>u. {})"
  unfolding confined_def
proof (intro allI impI)
  fix s A x s'
  assume o: "owns s t A" and X: "\<forall>p\<in>X. inside A p"
    and run: "set_tree (Some t) f s = Some (Inr (x, s'))"
  from run have s': "s' = s\<lparr>trees := (trees s)(t := f (trees s t))\<rparr>"
    by (auto simp add: set_tree_def)
  have "inside A (RBTree.root (f (trees s t)))" "inside A (minNode (f (trees s t)))"
      "inside A (maxNode (f (trees s t)))"
    using assms[of "trees s t"] o X by (auto simp add: owns_def)
  hence "owns s' t A" using o unfolding owns_def s' by auto
  moreover have "frame t A s s'" by (auto simp add: frame_def s')
  ultimately show "owns s' t (grown A s s') \<and> frame t A s s' \<and> (\<forall>p\<in>{}. inside (grown A s s') p)"
    by (simp add: grown_def s')
qed


subsection \<open>Rules for the field accessors\<close>

named_theorems confined_intros

lemma confined_ret_unit [confined_intros]: "confined t X (ret ()) (\<lambda>u. {})"
  by (simp add: confined_ret)

lemma confined_ret_bool [confined_intros]: "confined t X (ret (b::bool)) (\<lambda>u. {})"
  by (simp add: confined_ret)

lemma confined_ret_ptr [confined_intros]: "p \<in> insert None X \<Longrightarrow> confined t X (ret (p::ptr)) (\<lambda>q. {q})"
  by (simp add: confined_ret)

lemmas [confined_intros] = confined_bind confined_if confined_panic confined_doAssert
  confined_get_node

lemma confined_get_parent [confined_intros]:
  "p \<in> insert None X \<Longrightarrow> confined t X (get_parent p) (\<lambda>q. {q})"
  unfolding get_parent_def
  by (rule confined_bind, erule confined_get_node) (simp add: confined_ret)

lemma confined_get_left [confined_intros]:
  "p \<in> insert None X \<Longrightarrow> confined t X (get_left p) (\<lambda>q. {q})"
  unfolding get_left_def
  by (rule confined_bind, erule confined_get_node) (simp add: confined_ret)

lemma confined_get_right [confined_intros]:
  "p \<in> insert None X \<Longrightarrow> confined t X (get_right p) (\<lambda>q. {q})"
  unfolding get_right_def
  by (rule confined_bind, erule confined_get_node) (simp add: confined_ret)

lemma confined_get_item [confined_intros]:
  "confined t X (get_item p) (\<lambda>u. {})"
  by (auto simp add: confined_def get_item_def bind_def get_node_def ret_def
      split: option.splits)

lemma confined_get_color [confined_intros]:
  "confined t X (get_color p) (\<lambda>u. {})"
  by (auto simp add: confined_def get_color_def bind_def get_node_def ret_def
      split: option.splits)

lemma confined_set_parent [confined_intros]:
  "p \<in> insert None X \<Longrightarrow> v \<in> insert None X \<Longrightarrow> confined t X (set_parent p v) (\<lambda>u. {})"
  unfolding set_parent_def by (rule confined_set_node) auto

lemma confined_set_left [confined_intros]:
  "p \<in> insert None X \<Longrightarrow> v \<in> insert None X \<Longrightarrow> confined t X (set_left p v) (\<lambda>u. {})"
  unfolding set_left_def by (rule confined_set_node) auto

lemma confined_set_right [confined_intros]:
  "p \<in> insert None X \<Longrightarrow> v \<in> insert None X \<Longrightarrow> confined t X (set_right p v) (\<lambda>u. {})"
  unfolding set_right_def by (rule confined_set_node) auto

lemma confined_set_color [confined_intros]:
  "p \<in> insert None X \<Longrightarrow> confined t X (set_color p v) (\<lambda>u. {})"
  unfolding set_color_def by (rule confined_set_node) auto

lemma confined_set_item [confined_intros]:
  "p \<in> insert None X \<Longrightarrow> confined t X (set_item p v) (\<lambda>u. {})"
  unfolding set_item_def by (rule confined_set_node) auto

lemma confined_get_root [confined_intros]:
  "confined t X (get_root (Some t)) (\<lambda>q. {q})"
  unfolding get_root_def
  by (rule confined_bind, rule confined_get_tree) (simp add: confined_ret)

lemma confined_get_minNode [confined_intros]:
  "confined t X (get_minNode (Some t)) (\<lambda>q. {q})"
  unfolding get_minNode_def
  by (rule confined_bind, rule confined_get_tree) (simp add: confined_ret)

lemma confined_get_maxNode [confined_intros]:
  "confined t X (get_maxNode (Some t)) (\<lambda>q. {q})"
  unfolding get_maxNode_def
  by (rule confined_bind, rule confined_get_tree) (simp add: confined_ret)

lemma confined_get_count [confined_intros]:
  "confined t X (get_count (Some t)) (\<lambda>u. {})"
  by (auto simp add: confined_def get_count_def bind_def get_tree_def ret_def)

lemma confined_set_root [confined_intros]:
  "v \<in> insert None X \<Longrightarrow> confined t X (set_root (Some t) v) (\<lambda>u. {})"
  unfolding set_root_def by (rule confined_set_tree) auto

lemma confined_set_minNode [confined_intros]:
  "v \<in> insert None X \<Longrightarrow> confined t X (set_minNode (Some t) v) (\<lambda>u. {})"
  unfolding set_minNode_def by (rule confined_set_tree) auto

lemma confined_set_maxNode [confined_intros]:
  "v \<in> insert None X \<Longrightarrow> confined t X (set_maxNode (Some t) v) (\<lambda>u. {})"
  unfolding set_maxNode_def by (rule confined_set_tree) auto

lemma confined_set_count [confined_intros]:
  "confined t X (set_count (Some t) v) (\<lambda>u. {})"
  unfolding set_count_def by (rule confined_set_tree) auto

lemma confined_and_then [confined_intros]:
  assumes "confined t X a (\<lambda>u. {})" and "confined t X b (\<lambda>u. {})"
  shows "confined t X (and_then a b) (\<lambda>u. {})"
  unfolding and_then_def
  by (rule confined_bind, rule assms(1)) (simp add: confined_ret assms(2))

subsection \<open>The methods stay inside the footprint\<close>

lemma confined_getColor [confined_intros]:
  "confined t X (getColor n) (\<lambda>u. {})"
  by (auto simp add: confined_def getColor_def bind_def get_node_def ret_def
      split: option.splits)

lemma confined_isLeftChild [confined_intros]:
  "confined t X (isLeftChild n) (\<lambda>u. {})"
  by (auto simp add: confined_def isLeftChild_def bind_def get_node_def ret_def
      split: option.splits)

lemma confined_isRightChild [confined_intros]:
  "confined t X (isRightChild n) (\<lambda>u. {})"
  by (auto simp add: confined_def isRightChild_def bind_def get_node_def ret_def
      split: option.splits)



lemma confined_sibling [confined_intros]:
  "n \<in> insert None X \<Longrightarrow> confined t X (sibling n) (\<lambda>q. {q})"
  unfolding sibling_def
  by (rule confined_intros | (simp; fail) | (blast; fail))+

lemma confined_replaceNode [confined_intros]:
  "oldn \<in> insert None X \<Longrightarrow> newn \<in> insert None X \<Longrightarrow> confined t X (replaceNode (Some t) oldn newn) (\<lambda>u. {})"
  unfolding replaceNode_def
  by (rule confined_intros | (simp; fail) | (blast; fail))+

lemma confined_rotateLeft [confined_intros]:
  "x \<in> insert None X \<Longrightarrow> confined t X (rotateLeft (Some t) x) (\<lambda>u. {})"
  unfolding rotateLeft_def
  by (rule confined_intros | (simp; fail) | (blast; fail))+

lemma confined_rotateRight [confined_intros]:
  "y \<in> insert None X \<Longrightarrow> confined t X (rotateRight (Some t) y) (\<lambda>u. {})"
  unfolding rotateRight_def
  by (rule confined_intros | (simp; fail) | (blast; fail))+


subsection \<open>The loops and the public methods stay inside the footprint\<close>

text \<open>The same for one run, for the inductions over the loops.\<close>

definition confined_at ::
  "nat \<Rightarrow> ptr set \<Rightarrow> heap \<Rightarrow> (go_panic + 'a \<times> heap) \<Rightarrow> ('a \<Rightarrow> ptr set) \<Rightarrow> bool" where
  "confined_at t X s y R \<longleftrightarrow>
     (\<forall>A x s'. owns s t A \<longrightarrow> (\<forall>p\<in>X. inside A p) \<longrightarrow> y = Inr (x, s') \<longrightarrow>
        owns s' t (grown A s s') \<and> frame t A s s' \<and> (\<forall>p\<in>R x. inside (grown A s s') p))"

lemma confined_iff: "confined t X m R \<longleftrightarrow> (\<forall>s y. m s = Some y \<longrightarrow> confined_at t X s y R)"
  unfolding confined_def confined_at_def by blast

lemma confined_at_bindI:
  "bind m f s = Some y \<Longrightarrow> confined t X (bind m f) R \<Longrightarrow> confined_at t X s y R"
  by (simp add: confined_iff)

lemma confined_at_ifI:
  "(if c then a else b) s = Some y \<Longrightarrow> confined t X (if c then a else b) R
   \<Longrightarrow> confined_at t X s y R"
  by (simp add: confined_iff)

lemma confined_bind_pair [confined_intros]:
  assumes "confined t X m R1" and "\<And>a b. confined t (X \<union> R1 (a, b)) (f a b) R2"
  shows "confined t X (bind m (\<lambda>(a, b). f a b)) R2"
  by (rule confined_bind, rule assms(1)) (simp add: assms(2) split: prod.splits)

lemma confined_ret_found [confined_intros]:
  "n \<in> insert None X \<Longrightarrow> confined t X (ret (n::ptr, b::bool)) (\<lambda>r. {fst r})"
  by (simp add: confined_ret)

lemma confined_ret_iter [confined_intros]:
  "n \<in> insert None X \<Longrightarrow> confined t X (ret \<lparr>Iterator.root = tp, node = n\<rparr>) (\<lambda>r. {node r})"
  by (simp add: confined_ret)

lemma confined_ret_inserted [confined_intros]:
  "n \<in> insert None X
   \<Longrightarrow> confined t X (ret (b::bool, \<lparr>Iterator.root = tp, node = n\<rparr>)) (\<lambda>r. {node (snd r)})"
  by (simp add: confined_ret)

lemma confined_descendLeft [confined_intros]:
  "m \<in> insert None X \<Longrightarrow> confined t X (descendLeft m) (\<lambda>q. {q})"
proof -
  have "(\<forall>X. m \<in> insert None X \<longrightarrow> confined_at t X s y (\<lambda>q. {q}))"
    if run: "descendLeft m s = Some y" for m s y
  proof (rule descendLeft.raw_induct
      [where P = "\<lambda>m s y. (\<forall>X. m \<in> insert None X \<longrightarrow> confined_at t X s y (\<lambda>q. {q}))", OF _ run], goal_cases)
    case (1 f m s y)
    hence IH: "\<And>m X. m \<in> insert None X \<Longrightarrow> confined t X (f m) (\<lambda>q. {q})"
      by (auto simp add: confined_iff)
    show ?case
      by (intro allI impI, rule confined_at_bindI[OF 1(2)]) (rule confined_intros confined_new_node IH | (simp add: zero_node_def; fail) | (blast; fail))+
  qed
  thus "m \<in> insert None X \<Longrightarrow> ?thesis" by (auto simp add: confined_iff)
qed

lemma confined_climbNext [confined_intros]:
  "n \<in> insert None X \<Longrightarrow> confined t X (climbNext n) (\<lambda>q. {q})"
proof -
  have "(\<forall>X. n \<in> insert None X \<longrightarrow> confined_at t X s y (\<lambda>q. {q}))"
    if run: "climbNext n s = Some y" for n s y
  proof (rule climbNext.raw_induct
      [where P = "\<lambda>n s y. (\<forall>X. n \<in> insert None X \<longrightarrow> confined_at t X s y (\<lambda>q. {q}))", OF _ run], goal_cases)
    case (1 f n s y)
    hence IH: "\<And>n X. n \<in> insert None X \<Longrightarrow> confined t X (f n) (\<lambda>q. {q})"
      by (auto simp add: confined_iff)
    show ?case
      by (intro allI impI, rule confined_at_ifI[OF 1(2)]) (rule confined_intros confined_new_node IH | (simp add: zero_node_def; fail) | (blast; fail))+
  qed
  thus "n \<in> insert None X \<Longrightarrow> ?thesis" by (auto simp add: confined_iff)
qed

lemma confined_doNext [confined_intros]:
  "n \<in> insert None X \<Longrightarrow> confined t X (doNext n) (\<lambda>q. {q})"
  unfolding doNext_def
  by (rule confined_intros confined_new_node | (simp add: zero_node_def; fail) | (blast; fail))+

lemma confined_descendRight [confined_intros]:
  "m \<in> insert None X \<Longrightarrow> confined t X (descendRight m) (\<lambda>q. {q})"
proof -
  have "(\<forall>X. m \<in> insert None X \<longrightarrow> confined_at t X s y (\<lambda>q. {q}))"
    if run: "descendRight m s = Some y" for m s y
  proof (rule descendRight.raw_induct
      [where P = "\<lambda>m s y. (\<forall>X. m \<in> insert None X \<longrightarrow> confined_at t X s y (\<lambda>q. {q}))", OF _ run], goal_cases)
    case (1 f m s y)
    hence IH: "\<And>m X. m \<in> insert None X \<Longrightarrow> confined t X (f m) (\<lambda>q. {q})"
      by (auto simp add: confined_iff)
    show ?case
      by (intro allI impI, rule confined_at_bindI[OF 1(2)]) (rule confined_intros confined_new_node IH | (simp add: zero_node_def; fail) | (blast; fail))+
  qed
  thus "m \<in> insert None X \<Longrightarrow> ?thesis" by (auto simp add: confined_iff)
qed

lemma confined_maxPredecessor [confined_intros]:
  "n \<in> insert None X \<Longrightarrow> confined t X (maxPredecessor n) (\<lambda>q. {q})"
  unfolding maxPredecessor_def
  by (rule confined_intros confined_new_node | (simp add: zero_node_def; fail) | (blast; fail))+

lemma confined_recomputeMinLoop [confined_intros]:
  "confined t X (recomputeMinLoop (Some t)) (\<lambda>u. {})"
proof -
  have "tp = Some t \<longrightarrow> (\<forall>X. confined_at t X s y (\<lambda>u. {}))"
    if run: "recomputeMinLoop tp s = Some y" for tp s y
  proof (rule recomputeMinLoop.raw_induct
      [where P = "\<lambda>tp s y. tp = Some t \<longrightarrow> (\<forall>X. confined_at t X s y (\<lambda>u. {}))", OF _ run], goal_cases)
    case (1 f tp s y)
    hence IH: "\<And> X. confined t X (f (Some t)) (\<lambda>u. {})"
      by (auto simp add: confined_iff)
    show ?case
    proof (intro impI)
      assume tp: "tp = Some t"
      note body = 1(2)[unfolded tp]
      show "(\<forall>X. confined_at t X s y (\<lambda>u. {}))"
        by (intro allI impI, rule confined_at_bindI[OF body]) (rule confined_intros confined_new_node IH | (simp add: zero_node_def; fail) | (blast; fail))+
    qed
  qed
  thus ?thesis by (auto simp add: confined_iff)
qed

lemma confined_recomputeMaxLoop [confined_intros]:
  "confined t X (recomputeMaxLoop (Some t)) (\<lambda>u. {})"
proof -
  have "tp = Some t \<longrightarrow> (\<forall>X. confined_at t X s y (\<lambda>u. {}))"
    if run: "recomputeMaxLoop tp s = Some y" for tp s y
  proof (rule recomputeMaxLoop.raw_induct
      [where P = "\<lambda>tp s y. tp = Some t \<longrightarrow> (\<forall>X. confined_at t X s y (\<lambda>u. {}))", OF _ run], goal_cases)
    case (1 f tp s y)
    hence IH: "\<And> X. confined t X (f (Some t)) (\<lambda>u. {})"
      by (auto simp add: confined_iff)
    show ?case
    proof (intro impI)
      assume tp: "tp = Some t"
      note body = 1(2)[unfolded tp]
      show "(\<forall>X. confined_at t X s y (\<lambda>u. {}))"
        by (intro allI impI, rule confined_at_bindI[OF body]) (rule confined_intros confined_new_node IH | (simp add: zero_node_def; fail) | (blast; fail))+
    qed
  qed
  thus ?thesis by (auto simp add: confined_iff)
qed

lemma confined_recomputeMinNode [confined_intros]:
  "confined t X (recomputeMinNode (Some t)) (\<lambda>u. {})"
  unfolding recomputeMinNode_def
  by (rule confined_intros confined_new_node | (simp add: zero_node_def; fail) | (blast; fail))+

lemma confined_recomputeMaxNode [confined_intros]:
  "confined t X (recomputeMaxNode (Some t)) (\<lambda>u. {})"
  unfolding recomputeMaxNode_def
  by (rule confined_intros confined_new_node | (simp add: zero_node_def; fail) | (blast; fail))+

lemma confined_maybeSetMinNode [confined_intros]:
  "n \<in> insert None X \<Longrightarrow> confined t X (maybeSetMinNode (Some t) n) (\<lambda>u. {})"
  unfolding maybeSetMinNode_def
  by (rule confined_intros confined_new_node | (simp add: zero_node_def; fail) | (blast; fail))+

lemma confined_maybeSetMaxNode [confined_intros]:
  "n \<in> insert None X \<Longrightarrow> confined t X (maybeSetMaxNode (Some t) n) (\<lambda>u. {})"
  unfolding maybeSetMaxNode_def
  by (rule confined_intros confined_new_node | (simp add: zero_node_def; fail) | (blast; fail))+

lemma confined_incCount [confined_intros]:
  "confined t X (incCount (Some t)) (\<lambda>u. {})"
  unfolding incCount_def
  by (rule confined_intros confined_new_node | (simp add: zero_node_def; fail) | (blast; fail))+

lemma confined_decCount [confined_intros]:
  "confined t X (decCount (Some t)) (\<lambda>u. {})"
  unfolding decCount_def
  by (rule confined_intros confined_new_node | (simp add: zero_node_def; fail) | (blast; fail))+

lemma confined_doInsertLoop [confined_intros]:
  "par \<in> insert None X \<Longrightarrow> confined t X (doInsertLoop (Some t) it par) (\<lambda>q. {q})"
proof -
  have "tp = Some t \<longrightarrow> (\<forall>X. par \<in> insert None X \<longrightarrow> confined_at t X s y (\<lambda>q. {q}))"
    if run: "doInsertLoop tp it par s = Some y" for tp it par s y
  proof (rule doInsertLoop.raw_induct
      [where P = "\<lambda>tp it par s y. tp = Some t \<longrightarrow> (\<forall>X. par \<in> insert None X \<longrightarrow> confined_at t X s y (\<lambda>q. {q}))", OF _ run], goal_cases)
    case (1 f tp it par s y)
    hence IH: "\<And>it par X. par \<in> insert None X \<Longrightarrow> confined t X (f (Some t) it par) (\<lambda>q. {q})"
      by (auto simp add: confined_iff)
    show ?case
    proof (intro impI)
      assume tp: "tp = Some t"
      note body = 1(2)[unfolded tp]
      show "(\<forall>X. par \<in> insert None X \<longrightarrow> confined_at t X s y (\<lambda>q. {q}))"
        by (intro allI impI, rule confined_at_bindI[OF body]) (rule confined_intros confined_new_node IH | (simp add: zero_node_def; fail) | (blast; fail))+
    qed
  qed
  thus "par \<in> insert None X \<Longrightarrow> ?thesis" by (auto simp add: confined_iff)
qed

lemma confined_doInsert [confined_intros]:
  "confined t X (doInsert (Some t) it) (\<lambda>q. {q})"
  unfolding doInsert_def
  by (rule confined_intros confined_new_node | (simp add: zero_node_def; fail) | (blast; fail))+

lemma confined_findGELoop [confined_intros]:
  "n \<in> insert None X \<Longrightarrow> confined t X (findGELoop key n) (\<lambda>r. {fst r})"
proof -
  have "(\<forall>X. n \<in> insert None X \<longrightarrow> confined_at t X s y (\<lambda>r. {fst r}))"
    if run: "findGELoop key n s = Some y" for key n s y
  proof (rule findGELoop.raw_induct
      [where P = "\<lambda>key n s y. (\<forall>X. n \<in> insert None X \<longrightarrow> confined_at t X s y (\<lambda>r. {fst r}))", OF _ run], goal_cases)
    case (1 f key n s y)
    hence IH: "\<And>key n X. n \<in> insert None X \<Longrightarrow> confined t X (f key n) (\<lambda>r. {fst r})"
      by (auto simp add: confined_iff)
    show ?case
      by (intro allI impI, rule confined_at_ifI[OF 1(2)]) (rule confined_intros confined_new_node IH | (simp add: zero_node_def; fail) | (blast; fail))+
  qed
  thus "n \<in> insert None X \<Longrightarrow> ?thesis" by (auto simp add: confined_iff)
qed

lemma confined_findGE [confined_intros]:
  "confined t X (findGE (Some t) key) (\<lambda>r. {fst r})"
  unfolding findGE_def
  by (rule confined_intros confined_new_node | (simp add: zero_node_def; fail) | (blast; fail))+

lemma confined_insertFix [confined_intros]:
  "n \<in> insert None X \<Longrightarrow> confined t X (insertFix (Some t) n) (\<lambda>u. {})"
proof -
  have "tp = Some t \<longrightarrow> (\<forall>X. n \<in> insert None X \<longrightarrow> confined_at t X s y (\<lambda>u. {}))"
    if run: "insertFix tp n s = Some y" for tp n s y
  proof (rule insertFix.raw_induct
      [where P = "\<lambda>tp n s y. tp = Some t \<longrightarrow> (\<forall>X. n \<in> insert None X \<longrightarrow> confined_at t X s y (\<lambda>u. {}))", OF _ run], goal_cases)
    case (1 f tp n s y)
    hence IH: "\<And>n X. n \<in> insert None X \<Longrightarrow> confined t X (f (Some t) n) (\<lambda>u. {})"
      by (auto simp add: confined_iff)
    show ?case
    proof (intro impI)
      assume tp: "tp = Some t"
      note body = 1(2)[unfolded tp]
      show "(\<forall>X. n \<in> insert None X \<longrightarrow> confined_at t X s y (\<lambda>u. {}))"
        by (intro allI impI, rule confined_at_bindI[OF body]) (rule confined_intros confined_new_node IH | (simp add: zero_node_def; fail) | (blast; fail))+
    qed
  qed
  thus "n \<in> insert None X \<Longrightarrow> ?thesis" by (auto simp add: confined_iff)
qed

lemma confined_Insert [confined_intros]:
  "confined t X (Insert (Some t) it) (\<lambda>r. {node (snd r)})"
  unfolding Insert_def
  by (rule confined_intros confined_new_node | (simp add: zero_node_def; fail) | (blast; fail))+

lemma confined_adoptLeft [confined_intros]:
  "p \<in> insert None X \<Longrightarrow> confined t X (adoptLeft p) (\<lambda>u. {})"
  unfolding adoptLeft_def
  by (rule confined_intros confined_new_node | (simp add: zero_node_def; fail) | (blast; fail))+

lemma confined_adoptRight [confined_intros]:
  "p \<in> insert None X \<Longrightarrow> confined t X (adoptRight p) (\<lambda>u. {})"
  unfolding adoptRight_def
  by (rule confined_intros confined_new_node | (simp add: zero_node_def; fail) | (blast; fail))+

lemma confined_swapNodes [confined_intros]:
  "n \<in> insert None X \<Longrightarrow> pred \<in> insert None X \<Longrightarrow> confined t X (swapNodes (Some t) n pred) (\<lambda>u. {})"
  unfolding swapNodes_def
  by (rule confined_intros confined_new_node | (simp add: zero_node_def; fail) | (blast; fail))+

lemma confined_parentColorIs [confined_intros]:
  "n \<in> insert None X \<Longrightarrow> confined t X (parentColorIs n c) (\<lambda>u. {})"
  unfolding parentColorIs_def
  by (rule confined_intros confined_new_node | (simp add: zero_node_def; fail) | (blast; fail))+

lemma confined_siblingColorIs [confined_intros]:
  "n \<in> insert None X \<Longrightarrow> confined t X (siblingColorIs n c) (\<lambda>u. {})"
  unfolding siblingColorIs_def
  by (rule confined_intros confined_new_node | (simp add: zero_node_def; fail) | (blast; fail))+

lemma confined_siblingLeftColorIs [confined_intros]:
  "n \<in> insert None X \<Longrightarrow> confined t X (siblingLeftColorIs n c) (\<lambda>u. {})"
  unfolding siblingLeftColorIs_def
  by (rule confined_intros confined_new_node | (simp add: zero_node_def; fail) | (blast; fail))+

lemma confined_siblingRightColorIs [confined_intros]:
  "n \<in> insert None X \<Longrightarrow> confined t X (siblingRightColorIs n c) (\<lambda>u. {})"
  unfolding siblingRightColorIs_def
  by (rule confined_intros confined_new_node | (simp add: zero_node_def; fail) | (blast; fail))+

lemma confined_isParentsLeft [confined_intros]:
  "n \<in> insert None X \<Longrightarrow> confined t X (isParentsLeft n) (\<lambda>u. {})"
  unfolding isParentsLeft_def
  by (rule confined_intros confined_new_node | (simp add: zero_node_def; fail) | (blast; fail))+

lemma confined_isParentsRight [confined_intros]:
  "n \<in> insert None X \<Longrightarrow> confined t X (isParentsRight n) (\<lambda>u. {})"
  unfolding isParentsRight_def
  by (rule confined_intros confined_new_node | (simp add: zero_node_def; fail) | (blast; fail))+

lemma confined_deleteCase5 [confined_intros]:
  "n \<in> insert None X \<Longrightarrow> confined t X (deleteCase5 (Some t) n) (\<lambda>u. {})"
  unfolding deleteCase5_def
  by (rule confined_intros confined_new_node | (simp add: zero_node_def; fail) | (blast; fail))+

lemma confined_deleteCase1 [confined_intros]:
  "n \<in> insert None X \<Longrightarrow> confined t X (deleteCase1 (Some t) n) (\<lambda>u. {})"
proof -
  have "tp = Some t \<longrightarrow> (\<forall>X. n \<in> insert None X \<longrightarrow> confined_at t X s y (\<lambda>u. {}))"
    if run: "deleteCase1 tp n s = Some y" for tp n s y
  proof (rule deleteCase1.raw_induct
      [where P = "\<lambda>tp n s y. tp = Some t \<longrightarrow> (\<forall>X. n \<in> insert None X \<longrightarrow> confined_at t X s y (\<lambda>u. {}))", OF _ run], goal_cases)
    case (1 f tp n s y)
    hence IH: "\<And>n X. n \<in> insert None X \<Longrightarrow> confined t X (f (Some t) n) (\<lambda>u. {})"
      by (auto simp add: confined_iff)
    show ?case
    proof (intro impI)
      assume tp: "tp = Some t"
      note body = 1(2)[unfolded tp]
      show "(\<forall>X. n \<in> insert None X \<longrightarrow> confined_at t X s y (\<lambda>u. {}))"
        by (intro allI impI, rule confined_at_bindI[OF body]) (rule confined_intros confined_new_node IH | (simp add: zero_node_def; fail) | (blast; fail))+
    qed
  qed
  thus "n \<in> insert None X \<Longrightarrow> ?thesis" by (auto simp add: confined_iff)
qed

lemma confined_doDelete [confined_intros]:
  "n \<in> insert None X \<Longrightarrow> confined t X (doDelete (Some t) n) (\<lambda>u. {})"
  unfolding doDelete_def
  by (rule confined_intros confined_new_node | (simp add: zero_node_def; fail) | (blast; fail))+

lemma confined_FindGE [confined_intros]:
  "confined t X (FindGE (Some t) key) (\<lambda>r. {node r})"
  unfolding FindGE_def
  by (rule confined_intros confined_new_node | (simp add: zero_node_def; fail) | (blast; fail))+

lemma confined_DeleteWithIterator [confined_intros]:
  "node iter \<in> insert None X \<Longrightarrow> confined t X (DeleteWithIterator (Some t) iter) (\<lambda>u. {})"
  unfolding DeleteWithIterator_def
  by (rule confined_intros confined_new_node | (simp add: zero_node_def; fail) | (blast; fail))+

lemma confined_DeleteWithKey [confined_intros]:
  "confined t X (DeleteWithKey (Some t) key) (\<lambda>u. {})"
  unfolding DeleteWithKey_def
  by (rule confined_intros confined_new_node | (simp add: zero_node_def; fail) | (blast; fail))+


subsection \<open>A tree owns its nodes\<close>

fun root_ptr :: "shape \<Rightarrow> ptr" where
  "root_ptr Leaf = None"
| "root_ptr (Node l a r) = Some a"

lemma shape_at_root: "shape_at s p par sh \<Longrightarrow> p = root_ptr sh"
  by (cases sh) simp_all

lemma shape_at_cong:
  "(\<And>a. a \<in> set (addrs sh) \<Longrightarrow> nodes s' a = nodes s a)
   \<Longrightarrow> shape_at s' p par sh = shape_at s p par sh"
  by (induction sh arbitrary: p par) auto

lemma shape_at_inside:
  assumes "shape_at s p par sh" and "inside A par" and "set (addrs sh) \<subseteq> A"
  shows "\<forall>a\<in>set (addrs sh). inside A (parent (nodes s a)) \<and> inside A (left (nodes s a))
           \<and> inside A (right (nodes s a))"
  using assms
proof (induction sh arbitrary: p par)
  case Leaf
  thus ?case by simp
next
  case (Node l a r)
  have l: "shape_at s (left (nodes s a)) (Some a) l" and r: "shape_at s (right (nodes s a)) (Some a) r"
    and par: "parent (nodes s a) = par"
    using Node.prems(1) by simp_all
  have a: "inside A (Some a)" using Node.prems(3) by simp
  have sub: "set (addrs l) \<subseteq> A" "set (addrs r) \<subseteq> A" using Node.prems(3) by auto
  have il: "inside A (left (nodes s a))"
    using shape_at_root[OF l] sub(1) by (cases l) auto
  have ir: "inside A (right (nodes s a))"
    using shape_at_root[OF r] sub(2) by (cases r) auto
  show ?case
    using Node.IH(1)[OF l a sub(1)] Node.IH(2)[OF r a sub(2)] il ir par Node.prems(2)
    by auto
qed

lemma tree_rep_owns:
  assumes "tree_rep s t sh"
  shows "owns s t (set (addrs sh))"
proof -
  have sh: "shape_at s (RBTree.root (trees s t)) None sh"
    and alloc: "\<forall>a\<in>set (addrs sh). a < node_top s"
    and mn: "minNode (trees s t) = (if addrs sh = [] then None else Some (hd (addrs sh)))"
    and mx: "maxNode (trees s t) = (if addrs sh = [] then None else Some (last (addrs sh)))"
    using assms by (auto simp add: tree_rep_def list_all_iff)
  have "inside (set (addrs sh)) (RBTree.root (trees s t))"
    using shape_at_root[OF sh] by (cases sh) auto
  moreover have "inside (set (addrs sh)) (minNode (trees s t))"
    using mn by auto
  moreover have "inside (set (addrs sh)) (maxNode (trees s t))"
    using mx by auto
  ultimately show ?thesis
    using shape_at_inside[OF sh, of "set (addrs sh)"] alloc
    by (auto simp add: owns_def)
qed

lemma tree_rep_frame:
  assumes rep: "tree_rep s u sh" and fr: "frame t A s s'" and ne: "u \<noteq> t"
    and disj: "set (addrs sh) \<inter> A = {}"
  shows "tree_rep s' u sh" and "trees s' u = trees s u"
    and "\<forall>a\<in>set (addrs sh). nodes s' a = nodes s a"
proof -
  have alloc: "\<forall>a\<in>set (addrs sh). a < node_top s"
    using rep by (auto simp add: tree_rep_def list_all_iff)
  show same: "\<forall>a\<in>set (addrs sh). nodes s' a = nodes s a"
    using fr alloc disj by (auto simp add: frame_def)
  show hdr: "trees s' u = trees s u" using fr ne by (simp add: frame_def)
  have keys: "map (key_of s') (addrs sh) = map (key_of s) (addrs sh)"
    using same by (simp add: key_of_def)
  have "shape_at s' (RBTree.root (trees s u)) None sh = shape_at s (RBTree.root (trees s u)) None sh"
    using same by (intro shape_at_cong) simp
  moreover have "sorted_wrt (\<lambda>x y. x <s y) (map (key_of s') (addrs sh))"
    unfolding keys using rep by (simp add: tree_rep_def)
  ultimately show "tree_rep s' u sh"
    using rep fr hdr alloc unfolding tree_rep_def frame_def list_all_iff
    by (auto simp add: less_le_trans)
qed


subsection \<open>Sequences of mutations\<close>

text \<open>
  A mutation of a tree: an \<open>Insert\<close>, a \<open>DeleteWithKey\<close> or a \<open>DeleteWithIterator\<close>. The
  iterator of a deletion has to be at a node of the tree at hand: one of its nodes \<open>A\<close>
  or a node inserted since.
\<close>

datatype mutation = InsertItem Item | DeleteKey go_int | DeleteAt Iterator

fun mutate :: "tree_ptr \<Rightarrow> mutation \<Rightarrow> unit prog" where
  "mutate t (InsertItem it) = bind (Insert t it) (\<lambda>r. ret ())"
| "mutate t (DeleteKey key) = bind (DeleteWithKey t key) (\<lambda>r. ret ())"
| "mutate t (DeleteAt iter) = DeleteWithIterator t iter"

fun positioned :: "nat set \<Rightarrow> mutation \<Rightarrow> bool" where
  "positioned A (InsertItem it) = True"
| "positioned A (DeleteKey key) = True"
| "positioned A (DeleteAt iter) = (case node iter of None \<Rightarrow> False | Some a \<Rightarrow> a \<in> A)"

text \<open>
  The heap after a sequence of mutations of the tree \<open>t\<close>, when each of them returns;
  the nodes of the tree grow by the nodes allocated on the way.
\<close>

fun mutations :: "tree_ptr \<Rightarrow> nat set \<Rightarrow> mutation list \<Rightarrow> heap \<Rightarrow> heap option" where
  "mutations t A [] s = Some s"
| "mutations t A (m # ms) s =
     (if positioned A m then
        (case mutate t m s of
           Some (Inr (u, s')) \<Rightarrow> mutations t (A \<union> {node_top s..<node_top s'}) ms s'
         | Some (Inl e) \<Rightarrow> None
         | None \<Rightarrow> None)
      else None)"

lemma mutate_frame:
  assumes o: "owns s t A" and p: "positioned A m"
    and run: "mutate (Some t) m s = Some (Inr (u, s'))"
  shows "owns s' t (grown A s s') \<and> frame t A s s'"
proof (cases m)
  case (InsertItem it)
  have "confined t {} (mutate (Some t) m) (\<lambda>u. {})"
    unfolding InsertItem mutate.simps
    by (rule confined_intros | (simp; fail) | (blast; fail))+
  thus ?thesis using o run unfolding confined_def by blast
next
  case (DeleteKey key)
  have "confined t {} (mutate (Some t) m) (\<lambda>u. {})"
    unfolding DeleteKey mutate.simps
    by (rule confined_intros | (simp; fail) | (blast; fail))+
  thus ?thesis using o run unfolding confined_def by blast
next
  case (DeleteAt iter)
  have "confined t {node iter} (mutate (Some t) m) (\<lambda>u. {})"
    unfolding DeleteAt mutate.simps
    by (rule confined_intros | (simp; fail) | (blast; fail))+
  moreover have "\<forall>q\<in>{node iter}. inside A q"
    using p DeleteAt by (auto split: option.splits)
  ultimately show ?thesis using o run unfolding confined_def by blast
qed

lemma mutations_frame:
  assumes "owns s t A" and "mutations (Some t) A ms s = Some s'"
  shows "owns s' t (grown A s s') \<and> frame t A s s'"
  using assms
proof (induction ms arbitrary: s A)
  case Nil
  thus ?case by simp
next
  case (Cons m ms)
  from Cons.prems(2) obtain u s1 where p: "positioned A m"
    and m: "mutate (Some t) m s = Some (Inr (u, s1))"
    and rest: "mutations (Some t) (grown A s s1) ms s1 = Some s'"
    by (auto simp add: grown_def split: if_splits option.splits sum.splits)
  have 1: "owns s1 t (grown A s s1)" "frame t A s s1"
    using mutate_frame[OF Cons.prems(1) p m] by simp_all
  have 2: "owns s' t (grown (grown A s s1) s1 s')" "frame t (grown A s s1) s1 s'"
    using Cons.IH[OF 1(1) rest] by simp_all
  have "grown (grown A s s1) s1 s' = grown A s s'"
    using 1(2) 2(2) by (intro grown_trans) (simp_all add: frame_def)
  thus ?case using 2 frame_trans[OF 1(2) 2(2)] by simp
qed

text \<open>Mutations of one tree leave a tree with other nodes as it is.\<close>

lemma mutations_other_tree:
  assumes t: "tree_rep s t sh" and u: "tree_rep s u sh'" and ne: "u \<noteq> t"
    and disj: "set (addrs sh') \<inter> set (addrs sh) = {}"
    and run: "mutations (Some t) (set (addrs sh)) ms s = Some s'"
  shows "tree_rep s' u sh'" and "trees s' u = trees s u"
    and "\<forall>a\<in>set (addrs sh'). nodes s' a = nodes s a"
proof -
  have "frame t (set (addrs sh)) s s'"
    using mutations_frame[OF tree_rep_owns[OF t] run] by simp
  from tree_rep_frame[OF u this ne disj]
  show "tree_rep s' u sh'" and "trees s' u = trees s u"
    and "\<forall>a\<in>set (addrs sh'). nodes s' a = nodes s a"
    by simp_all
qed


subsection \<open>The copy of a tree\<close>

text \<open>
  \<open>copy\<close> allocates the copies in preorder from the first free address \<open>k\<close>:
  \<open>relabel sh k\<close> is the shape of the copy.
\<close>

fun relabel :: "shape \<Rightarrow> nat \<Rightarrow> shape" where
  "relabel Leaf k = Leaf"
| "relabel (Node l a r) k =
     Node (relabel l (Suc k)) k (relabel r (Suc k + length (addrs l)))"

lemma length_addrs_relabel [simp]: "length (addrs (relabel sh k)) = length (addrs sh)"
  by (induction sh arbitrary: k) simp_all

lemma set_addrs_relabel: "set (addrs (relabel sh k)) = {k..<k + length (addrs sh)}"
  by (induction sh arbitrary: k) (auto simp add: less_Suc_eq_le)

lemma distinct_addrs_relabel: "distinct (addrs (relabel sh k))"
  by (induction sh arbitrary: k) (auto simp add: set_addrs_relabel)

lemma relabel_Leaf_iff [simp]: "relabel sh k = Leaf \<longleftrightarrow> sh = Leaf"
  by (cases sh) simp_all

lemma root_ptr_relabel: "root_ptr (relabel sh k) = (if sh = Leaf then None else Some k)"
  by (cases sh) simp_all

lemma shape_at_reparent:
  assumes "shape_at s (Some b) par sh" and "b \<notin> set (addrs l) \<union> set (addrs r)"
    and "sh = Node l b r"
  shows "shape_at (s\<lparr>nodes := (nodes s)(b := (nodes s b)\<lparr>parent := par'\<rparr>)\<rparr>) (Some b) par' sh"
proof -
  let ?s' = "s\<lparr>nodes := (nodes s)(b := (nodes s b)\<lparr>parent := par'\<rparr>)\<rparr>"
  have l: "shape_at s (left (nodes s b)) (Some b) l" and r: "shape_at s (right (nodes s b)) (Some b) r"
    using assms(1,3) by simp_all
  have "shape_at ?s' (left (nodes s b)) (Some b) l = shape_at s (left (nodes s b)) (Some b) l"
    using assms(2) by (intro shape_at_cong) auto
  moreover have "shape_at ?s' (right (nodes s b)) (Some b) r = shape_at s (right (nodes s b)) (Some b) r"
    using assms(2) by (intro shape_at_cong) auto
  ultimately show ?thesis using l r assms(3) by simp
qed

text \<open>What \<open>copy\<close> of the tree of shape \<open>sh\<close> at \<open>p\<close> does to the heap \<open>s\<close>, giving \<open>s'\<close>.\<close>

definition copied :: "shape \<Rightarrow> ptr \<Rightarrow> heap \<Rightarrow> heap \<Rightarrow> bool" where
  "copied sh par s s' \<longleftrightarrow>
     node_top s' = node_top s + length (addrs sh)
     \<and> trees s' = trees s \<and> tree_top s' = tree_top s
     \<and> (\<forall>a<node_top s. nodes s' a = nodes s a)
     \<and> shape_at s' (root_ptr (relabel sh (node_top s))) par (relabel sh (node_top s))
     \<and> map (\<lambda>a. item (nodes s' a)) (addrs (relabel sh (node_top s)))
         = map (\<lambda>a. item (nodes s a)) (addrs sh)"


lemma copy_child:
  assumes IH: "\<And>s p par. shape_at s p par ch \<Longrightarrow> ch \<noteq> Leaf
                 \<Longrightarrow> \<forall>a\<in>set (addrs ch). a < node_top s
                 \<Longrightarrow> \<exists>s'. copy p s = Some (Inr (Some (node_top s), s')) \<and> copied ch par s s'"
    and sh: "shape_at s c par0 ch"
    and alloc: "\<forall>a\<in>set (addrs ch). a < node_top s"
    and k: "k < node_top s"
  shows "\<exists>s'. (if c \<noteq> None
               then bind (copy c) (\<lambda>l. bind (set_node (Some k) (upd l)) (\<lambda>u. set_parent l (Some k)))
               else ret ()) s = Some (Inr ((), s'))
           \<and> node_top s' = node_top s + length (addrs ch)
           \<and> trees s' = trees s \<and> tree_top s' = tree_top s
           \<and> (\<forall>a<node_top s. a \<noteq> k \<longrightarrow> nodes s' a = nodes s a)
           \<and> nodes s' k = (if ch = Leaf then nodes s k else upd (Some (node_top s)) (nodes s k))
           \<and> shape_at s' (root_ptr (relabel ch (node_top s))) (Some k) (relabel ch (node_top s))
           \<and> map (\<lambda>a. item (nodes s' a)) (addrs (relabel ch (node_top s)))
               = map (\<lambda>a. item (nodes s a)) (addrs ch)"
proof (cases ch)
  case Leaf
  hence "c = None" using shape_at_root[OF sh] by simp
  thus ?thesis using Leaf by (simp add: ret_def)
next
  case (Node l b r)
  hence c: "c = Some b" using shape_at_root[OF sh] by simp
  define k' where "k' = node_top s"
  have ne: "ch \<noteq> Leaf" using Node by simp
  obtain s2 where run: "copy c s = Some (Inr (Some k', s2))" and cp: "copied ch par0 s s2"
    using IH[OF sh ne alloc] unfolding k'_def by blast
  have top2: "node_top s2 = k' + length (addrs ch)" and tr2: "trees s2 = trees s"
    and tt2: "tree_top s2 = tree_top s" and old2: "\<And>a. a < k' \<Longrightarrow> nodes s2 a = nodes s a"
    and sh2: "shape_at s2 (Some k') par0 (relabel ch k')"
    and it2: "map (\<lambda>a. item (nodes s2 a)) (addrs (relabel ch k')) = map (\<lambda>a. item (nodes s a)) (addrs ch)"
    using cp ne unfolding copied_def k'_def by (simp_all add: root_ptr_relabel)
  define s2a where "s2a = s2\<lparr>nodes := (nodes s2)(k := upd (Some k') (nodes s2 k))\<rparr>"
  define s3 where "s3 = s2a\<lparr>nodes := (nodes s2a)(k' := (nodes s2a k')\<lparr>parent := Some k\<rparr>)\<rparr>"
  have kk: "k < k'" using k by (simp add: k'_def)
  have prog: "(if c \<noteq> None
               then bind (copy c) (\<lambda>l. bind (set_node (Some k) (upd l)) (\<lambda>u. set_parent l (Some k)))
               else ret ()) s = Some (Inr ((), s3))"
    using c run by (simp add: bind_def set_node_def set_parent_def s2a_def s3_def)
  obtain L R where rl: "relabel ch k' = Node L k' R"
    using Node by simp
  have in_rl: "\<And>a. a \<in> set (addrs (relabel ch k')) \<Longrightarrow> k' \<le> a"
    by (simp add: set_addrs_relabel)
  have knot: "k \<notin> set (addrs (relabel ch k'))" using in_rl kk by fastforce
  have k'not: "k' \<notin> set (addrs L) \<union> set (addrs R)"
    using distinct_addrs_relabel[of ch k'] rl by auto
  have sh2a: "shape_at s2a (Some k') par0 (relabel ch k')"
  proof -
    have "shape_at s2a (Some k') par0 (relabel ch k') = shape_at s2 (Some k') par0 (relabel ch k')"
      using knot by (intro shape_at_cong) (auto simp add: s2a_def)
    thus ?thesis using sh2 by simp
  qed
  have sh3: "shape_at s3 (Some k') (Some k) (relabel ch k')"
    unfolding s3_def by (rule shape_at_reparent[OF sh2a k'not rl])
  have it3: "map (\<lambda>a. item (nodes s3 a)) (addrs (relabel ch k')) = map (\<lambda>a. item (nodes s a)) (addrs ch)"
  proof -
    have "map (\<lambda>a. item (nodes s3 a)) (addrs (relabel ch k'))
            = map (\<lambda>a. item (nodes s2 a)) (addrs (relabel ch k'))"
      using knot by (intro map_cong) (auto simp add: s3_def s2a_def)
    thus ?thesis using it2 by simp
  qed
  have old3: "\<forall>a<node_top s. a \<noteq> k \<longrightarrow> nodes s3 a = nodes s a"
    using old2 by (auto simp add: s3_def s2a_def k'_def)
  have k3: "nodes s3 k = upd (Some k') (nodes s k)"
    using kk old2[OF kk] by (simp add: s3_def s2a_def)
  show ?thesis
    using prog top2 tr2 tt2 old3 k3 sh3 it3 ne
    by (intro exI[of _ s3]) (simp add: k'_def[symmetric] s3_def s2a_def root_ptr_relabel)
qed


lemma bind_step: "m s = Some (Inr (x, s')) \<Longrightarrow> bind m f s = f x s'"
  by (simp add: bind_def)

lemma copy_Some:
  "copy (Some a) s =
     bind (if left (nodes s a) \<noteq> None
           then bind (copy (left (nodes s a)))
                  (\<lambda>c. bind (set_node (Some (node_top s)) (\<lambda>n. n\<lparr>left := c\<rparr>))
                         (\<lambda>u. set_parent c (Some (node_top s))))
           else ret ())
      (\<lambda>u. bind (if right (nodes s a) \<noteq> None
                 then bind (copy (right (nodes s a)))
                        (\<lambda>c. bind (set_node (Some (node_top s)) (\<lambda>n. n\<lparr>right := c\<rparr>))
                               (\<lambda>u. set_parent c (Some (node_top s))))
                 else ret ())
            (\<lambda>u. ret (Some (node_top s))))
      (s\<lparr>nodes := (nodes s)(node_top s := nodes s a), node_top := node_top s + 1\<rparr>)"
proof -
  have g: "get_node (Some a) s = Some (Inr (nodes s a, s))"
    by (simp add: get_node_def ret_def)
  have n: "new_node (nodes s a) s
             = Some (Inr (Some (node_top s),
                          s\<lparr>nodes := (nodes s)(node_top s := nodes s a), node_top := node_top s + 1\<rparr>))"
    by (simp add: new_node_def)
  show ?thesis
    by (subst copy.simps) (simp only: bind_step[where m = "get_node (Some a)" and s = s, OF g]
                  bind_step[where m = "new_node (nodes s a)" and s = s, OF n]
                  set_left_def set_right_def)
qed

lemma copy_correct:
  "shape_at s p par sh \<Longrightarrow> sh \<noteq> Leaf \<Longrightarrow> \<forall>a\<in>set (addrs sh). a < node_top s
     \<Longrightarrow> \<exists>s'. copy p s = Some (Inr (Some (node_top s), s')) \<and> copied sh par s s'"
proof (induction sh arbitrary: s p par)
  case Leaf
  thus ?case by simp
next
  case (Node l a r)
  define k where "k = node_top s"
  define nd where "nd = nodes s a"
  define s1 where "s1 = s\<lparr>nodes := (nodes s)(k := nd), node_top := k + 1\<rparr>"
  have p: "p = Some a" and par: "parent nd = par"
    and shl: "shape_at s (left nd) (Some a) l" and shr: "shape_at s (right nd) (Some a) r"
    using Node.prems(1) by (simp_all add: nd_def)
  have ak: "a < k" and lk: "\<forall>b\<in>set (addrs l). b < k" and rk: "\<forall>b\<in>set (addrs r). b < k"
    using Node.prems(3) by (simp_all add: k_def)
  have shl1: "shape_at s1 (left nd) (Some a) l"
  proof -
    have "shape_at s1 (left nd) (Some a) l = shape_at s (left nd) (Some a) l"
      using lk by (intro shape_at_cong) (auto simp add: s1_def)
    thus ?thesis using shl by simp
  qed
  have lk1: "\<forall>b\<in>set (addrs l). b < node_top s1" using lk by (auto simp add: s1_def)
  have k1: "k < node_top s1" by (simp add: s1_def)
  let ?PL = "if left nd \<noteq> None
             then bind (copy (left nd)) (\<lambda>c. bind (set_node (Some k) (\<lambda>n. n\<lparr>left := c\<rparr>))
                                           (\<lambda>u. set_parent c (Some k)))
             else ret ()"
  let ?PR = "if right nd \<noteq> None
             then bind (copy (right nd)) (\<lambda>c. bind (set_node (Some k) (\<lambda>n. n\<lparr>right := c\<rparr>))
                                            (\<lambda>u. set_parent c (Some k)))
             else ret ()"
  obtain s3 where
    run3: "?PL s1 = Some (Inr ((), s3))"
    and top3: "node_top s3 = node_top s1 + length (addrs l)"
    and tr3: "trees s3 = trees s1" and tt3: "tree_top s3 = tree_top s1"
    and old3: "\<forall>b<node_top s1. b \<noteq> k \<longrightarrow> nodes s3 b = nodes s1 b"
    and k3: "nodes s3 k = (if l = Leaf then nodes s1 k else (nodes s1 k)\<lparr>left := Some (node_top s1)\<rparr>)"
    and sh3: "shape_at s3 (root_ptr (relabel l (node_top s1))) (Some k) (relabel l (node_top s1))"
    and it3: "map (\<lambda>b. item (nodes s3 b)) (addrs (relabel l (node_top s1)))
               = map (\<lambda>b. item (nodes s1 b)) (addrs l)"
    using copy_child[where upd = "\<lambda>c n. n\<lparr>left := c\<rparr>", OF Node.IH(1) shl1 lk1 k1] by blast
  define m where "m = Suc k + length (addrs l)"
  have top3': "node_top s3 = m" using top3 by (simp add: s1_def m_def)
  have old3': "\<And>b. b < k \<Longrightarrow> nodes s3 b = nodes s b"
    using old3 by (simp add: s1_def)
  have shr3: "shape_at s3 (right nd) (Some a) r"
  proof -
    have "shape_at s3 (right nd) (Some a) r = shape_at s (right nd) (Some a) r"
      using rk old3' by (intro shape_at_cong) auto
    thus ?thesis using shr by simp
  qed
  have rk3: "\<forall>b\<in>set (addrs r). b < node_top s3" using rk top3' by (auto simp add: m_def)
  have kk3: "k < node_top s3" using top3' by (simp add: m_def)
  obtain s5 where
    run5: "?PR s3 = Some (Inr ((), s5))"
    and top5: "node_top s5 = node_top s3 + length (addrs r)"
    and tr5: "trees s5 = trees s3" and tt5: "tree_top s5 = tree_top s3"
    and old5: "\<forall>b<node_top s3. b \<noteq> k \<longrightarrow> nodes s5 b = nodes s3 b"
    and k5: "nodes s5 k = (if r = Leaf then nodes s3 k else (nodes s3 k)\<lparr>right := Some (node_top s3)\<rparr>)"
    and sh5: "shape_at s5 (root_ptr (relabel r (node_top s3))) (Some k) (relabel r (node_top s3))"
    and it5: "map (\<lambda>b. item (nodes s5 b)) (addrs (relabel r (node_top s3)))
               = map (\<lambda>b. item (nodes s3 b)) (addrs r)"
    using copy_child[where upd = "\<lambda>c n. n\<lparr>right := c\<rparr>", OF Node.IH(2) shr3 rk3 kk3] by blast
  have run: "copy p s = Some (Inr (Some k, s5))"
    unfolding p copy_Some nd_def[symmetric] k_def[symmetric] s1_def[symmetric]
    by (simp only: bind_step[of ?PL s1 "()" s3, OF run3]
                   bind_step[of ?PR s3 "()" s5, OF run5] ret_def)
  let ?L = "relabel l (Suc k)" and ?R = "relabel r m"
  have inL: "\<And>b. b \<in> set (addrs ?L) \<Longrightarrow> k < b \<and> b < m"
    by (auto simp add: set_addrs_relabel m_def)
  have shL5: "shape_at s5 (root_ptr ?L) (Some k) ?L"
  proof -
    have "shape_at s5 (root_ptr ?L) (Some k) ?L = shape_at s3 (root_ptr ?L) (Some k) ?L"
      using inL old5 top3' by (intro shape_at_cong) fastforce
    thus ?thesis using sh3 by (simp add: s1_def)
  qed
  have shR5: "shape_at s5 (root_ptr ?R) (Some k) ?R"
    using sh5 top3' by simp
  have ndk: "nodes s1 k = nd" by (simp add: s1_def)
  have par5: "parent (nodes s5 k) = par" using k5 k3 ndk par by simp
  have lnone: "l = Leaf \<Longrightarrow> left nd = None" using shl by simp
  have rnone: "r = Leaf \<Longrightarrow> right nd = None" using shr by simp
  have left5: "left (nodes s5 k) = root_ptr ?L"
    using k5 k3 ndk lnone by (simp add: root_ptr_relabel s1_def)
  have right5: "right (nodes s5 k) = root_ptr ?R"
    using k5 k3 ndk rnone top3' by (simp add: root_ptr_relabel)
  have shape: "shape_at s5 (Some k) par (Node ?L k ?R)"
    using par5 left5 right5 shL5 shR5 by simp
  have itk: "item (nodes s5 k) = item (nodes s a)"
    using k5 k3 ndk by (simp add: nd_def)
  have itL: "map (\<lambda>b. item (nodes s5 b)) (addrs ?L) = map (\<lambda>b. item (nodes s b)) (addrs l)"
  proof -
    have "map (\<lambda>b. item (nodes s5 b)) (addrs ?L) = map (\<lambda>b. item (nodes s3 b)) (addrs ?L)"
      using inL old5 top3' by (intro map_cong) fastforce+
    also have "\<dots> = map (\<lambda>b. item (nodes s1 b)) (addrs l)" using it3 by (simp add: s1_def)
    also have "\<dots> = map (\<lambda>b. item (nodes s b)) (addrs l)"
      using lk by (intro map_cong) (auto simp add: s1_def)
    finally show ?thesis .
  qed
  have itR: "map (\<lambda>b. item (nodes s5 b)) (addrs ?R) = map (\<lambda>b. item (nodes s b)) (addrs r)"
  proof -
    have "map (\<lambda>b. item (nodes s5 b)) (addrs ?R) = map (\<lambda>b. item (nodes s3 b)) (addrs r)"
      using it5 top3' by simp
    also have "\<dots> = map (\<lambda>b. item (nodes s b)) (addrs r)"
      using rk old3' by (intro map_cong) auto
    finally show ?thesis .
  qed
  have old: "\<forall>b<node_top s. nodes s5 b = nodes s b"
    using old5 old3' top3' by (auto simp add: k_def[symmetric] m_def)
  have "copied (Node l a r) par s s5"
    unfolding copied_def
    using top5 top3' tr5 tr3 tt5 tt3 old shape itk itL itR
    by (simp add: k_def[symmetric] m_def[symmetric] s1_def) (simp add: m_def)
  thus ?case using run by (auto simp add: k_def)
qed


subsection \<open>The scan for the ends of the copy\<close>

fun linked :: "heap \<Rightarrow> shape \<Rightarrow> bool" where
  "linked s Leaf \<longleftrightarrow> True"
| "linked s (Node l a r) \<longleftrightarrow>
     left (nodes s a) = root_ptr l \<and> right (nodes s a) = root_ptr r \<and> linked s l \<and> linked s r"

lemma shape_at_linked: "shape_at s p par sh \<Longrightarrow> linked s sh"
proof (induction sh arbitrary: p par)
  case Leaf
  show ?case by simp
next
  case (Node l a r)
  have l: "shape_at s (left (nodes s a)) (Some a) l" and r: "shape_at s (right (nodes s a)) (Some a) r"
    using Node.prems by simp_all
  show ?case
    using shape_at_root[OF l] shape_at_root[OF r] Node.IH(1)[OF l] Node.IH(2)[OF r] by simp
qed

lemma linked_cong: "nodes s' = nodes s \<Longrightarrow> linked s' sh = linked s sh"
  by (induction sh) simp_all

text \<open>The heap \<open>s\<close> with the ends \<open>mn\<close> and \<open>mx\<close> cached in the tree \<open>u\<close>.\<close>

definition cached :: "nat \<Rightarrow> ptr \<Rightarrow> ptr \<Rightarrow> heap \<Rightarrow> heap" where
  "cached u mn mx s = s\<lparr>trees := (trees s)(u := (trees s u)\<lparr>minNode := mn, maxNode := mx\<rparr>)\<rparr>"

lemma cached_same: "cached u (minNode (trees s u)) (maxNode (trees s u)) s = s"
  by (simp add: cached_def)

lemma cached_cached: "cached u mn mx (cached u mn' mx' s) = cached u mn mx s"
  by (simp add: cached_def)

lemma cached_simps [simp]:
  "nodes (cached u mn mx s) = nodes s"
  "node_top (cached u mn mx s) = node_top s"
  "tree_top (cached u mn mx s) = tree_top s"
  "t \<noteq> u \<Longrightarrow> trees (cached u mn mx s) t = trees s t"
  "RBTree.root (trees (cached u mn mx s) u) = RBTree.root (trees s u)"
  "count (trees (cached u mn mx s) u) = count (trees s u)"
  "minNode (trees (cached u mn mx s) u) = mn"
  "maxNode (trees (cached u mn mx s) u) = mx"
  by (simp_all add: cached_def)

lemma copyScan_Nil: "copyScan tu minI maxI [] s = Some (Inr ((), s))"
  by (subst copyScan.simps) (simp add: ret_def)

lemma copyScan_Cons:
  "copyScan (Some u) minI maxI (Some a # qs) s =
     (let mn = (if item (nodes s a) = minI then Some a else minNode (trees s u));
          mx = (if item (nodes s a) = maxI then Some a else maxNode (trees s u))
      in if mn \<noteq> None \<and> mx \<noteq> None then Some (Inr ((), cached u mn mx s))
         else copyScan (Some u) minI maxI
                (qs @ (if left (nodes s a) \<noteq> None then [left (nodes s a)] else [])
                    @ (if right (nodes s a) \<noteq> None then [right (nodes s a)] else []))
                (cached u mn mx s))"
proof -
  let ?mn = "if item (nodes s a) = minI then Some a else minNode (trees s u)"
  let ?mx = "if item (nodes s a) = maxI then Some a else maxNode (trees s u)"
  define s1 where "s1 = cached u ?mn (maxNode (trees s u)) s"
  define s2 where "s2 = cached u ?mn ?mx s"
  have g: "get_item (Some a) s = Some (Inr (item (nodes s a), s))"
    by (simp add: get_item_def get_node_def bind_def ret_def)
  let ?M1 = "if item (nodes s a) = minI then set_minNode (Some u) (Some a) else ret ()"
  let ?M2 = "if item (nodes s a) = maxI then set_maxNode (Some u) (Some a) else ret ()"
  have m1: "?M1 s = Some (Inr ((), s1))"
    by (simp add: s1_def cached_def set_minNode_def set_tree_def ret_def)
  have m2: "?M2 s1 = Some (Inr ((), s2))"
    by (simp add: s1_def s2_def cached_def set_maxNode_def set_tree_def ret_def)
  have t: "get_tree (Some u) s2 = Some (Inr (trees s2 u, s2))"
    by (simp add: get_tree_def)
  have l: "get_left (Some a) s2 = Some (Inr (left (nodes s a), s2))"
    by (simp add: get_left_def get_node_def bind_def ret_def s2_def)
  have r: "get_right (Some a) s2 = Some (Inr (right (nodes s a), s2))"
    by (simp add: get_right_def get_node_def bind_def ret_def s2_def)
  have "copyScan (Some u) minI maxI (Some a # qs) s =
          (if minNode (trees s2 u) \<noteq> None \<and> maxNode (trees s2 u) \<noteq> None then ret () s2
           else copyScan (Some u) minI maxI
                  (qs @ (if left (nodes s a) \<noteq> None then [left (nodes s a)] else [])
                      @ (if right (nodes s a) \<noteq> None then [right (nodes s a)] else [])) s2)"
    apply (subst copyScan.simps)
    apply (simp only: list.sel length_Cons zero_less_Suc if_True
             bind_step[of "get_item (Some a)" s "item (nodes s a)" s, OF g])
    apply (simp only: bind_step[of ?M1 s "()" s1, OF m1])
    apply (simp only: bind_step[of ?M2 s1 "()" s2, OF m2])
    apply (simp only: bind_step[of "get_tree (Some u)" s2 "trees s2 u" s2, OF t])
    apply (simp add: bind_step[of "get_left (Some a)" s2 "left (nodes s a)" s2, OF l]
                     bind_step[of "get_right (Some a)" s2 "right (nodes s a)" s2, OF r])
    done
  thus ?thesis
    by (simp add: s2_def ret_def Let_def)
qed


text \<open>
  The queue holds the roots of the subtrees \<open>Q\<close>. An end that is not cached yet is in one of
  them; the scan returns with both ends cached.
\<close>

lemma copyScan_correct:
  assumes "\<forall>a\<in>A. (item (nodes s a) = minI \<longleftrightarrow> a = amin) \<and> (item (nodes s a) = maxI \<longleftrightarrow> a = amax)"
    and "\<forall>q\<in>set Q. q \<noteq> Leaf \<and> linked s q \<and> set (addrs q) \<subseteq> A"
    and "minNode (trees s u) = None \<and> amin \<in> (\<Union>q\<in>set Q. set (addrs q))
         \<or> minNode (trees s u) = Some amin"
    and "maxNode (trees s u) = None \<and> amax \<in> (\<Union>q\<in>set Q. set (addrs q))
         \<or> maxNode (trees s u) = Some amax"
  shows "copyScan (Some u) minI maxI (map root_ptr Q) s
           = Some (Inr ((), cached u (Some amin) (Some amax) s))"
  using assms
proof (induction "sum_list (map (\<lambda>q. length (addrs q)) Q)" arbitrary: Q s rule: less_induct)
  case less
  note items = less.prems(1) and Q = less.prems(2) and mn = less.prems(3) and mx = less.prems(4)
  show ?case
  proof (cases Q)
    case Nil
    have "minNode (trees s u) = Some amin" "maxNode (trees s u) = Some amax"
      using mn mx Nil by simp_all
    hence "cached u (Some amin) (Some amax) s = s"
      using cached_same[of u s] by simp
    thus ?thesis using Nil by (simp add: copyScan_Nil)
  next
    case (Cons q Q')
    obtain l a r where q: "q = Node l a r" using Q Cons by (cases q) auto
    have aA: "a \<in> A" and ll: "left (nodes s a) = root_ptr l" and rr: "right (nodes s a) = root_ptr r"
      and linkl: "linked s l" and linkr: "linked s r"
      and subl: "set (addrs l) \<subseteq> A" and subr: "set (addrs r) \<subseteq> A"
      using Q Cons q by auto
    define mn' where "mn' = (if item (nodes s a) = minI then Some a else minNode (trees s u))"
    define mx' where "mx' = (if item (nodes s a) = maxI then Some a else maxNode (trees s u))"
    define Q'' where "Q'' = Q' @ (if l \<noteq> Leaf then [l] else []) @ (if r \<noteq> Leaf then [r] else [])"
    define s2 where "s2 = cached u mn' mx' s"
    have imin: "item (nodes s a) = minI \<longleftrightarrow> a = amin" and imax: "item (nodes s a) = maxI \<longleftrightarrow> a = amax"
      using items aA by simp_all
    have mn'_cases: "mn' = None \<and> a \<noteq> amin \<and> minNode (trees s u) = None \<or> mn' = Some amin"
      using mn imin by (auto simp add: mn'_def)
    have mx'_cases: "mx' = None \<and> a \<noteq> amax \<and> maxNode (trees s u) = None \<or> mx' = Some amax"
      using mx imax by (auto simp add: mx'_def)
    have queue: "map root_ptr Q' @ (if left (nodes s a) \<noteq> None then [left (nodes s a)] else [])
                   @ (if right (nodes s a) \<noteq> None then [right (nodes s a)] else [])
                 = map root_ptr Q''"
      unfolding ll rr Q''_def by (cases l; cases r) simp_all
    have step: "copyScan (Some u) minI maxI (map root_ptr Q) s =
                  (if mn' \<noteq> None \<and> mx' \<noteq> None then Some (Inr ((), s2))
                   else copyScan (Some u) minI maxI (map root_ptr Q'') s2)"
      unfolding Cons q list.map root_ptr.simps copyScan_Cons Let_def
        mn'_def[symmetric] mx'_def[symmetric] s2_def[symmetric] queue ..
    show ?thesis
    proof (cases "mn' \<noteq> None \<and> mx' \<noteq> None")
      case True
      hence "mn' = Some amin" "mx' = Some amax" using mn'_cases mx'_cases by auto
      thus ?thesis using step True by (simp add: s2_def)
    next
      case False
      have size: "sum_list (map (\<lambda>q. length (addrs q)) Q'') < sum_list (map (\<lambda>q. length (addrs q)) Q)"
        by (simp add: Q''_def Cons q)
      have items2: "\<forall>a\<in>A. (item (nodes s2 a) = minI \<longleftrightarrow> a = amin)
                          \<and> (item (nodes s2 a) = maxI \<longleftrightarrow> a = amax)"
        using items by (simp add: s2_def)
      have Q2: "\<forall>q\<in>set Q''. q \<noteq> Leaf \<and> linked s2 q \<and> set (addrs q) \<subseteq> A"
        using Q Cons linkl linkr subl subr
        by (auto simp add: Q''_def s2_def linked_cong[of "cached u mn' mx' s" s])
      have un: "(\<Union>q\<in>set Q. set (addrs q)) = insert a (\<Union>q\<in>set Q''. set (addrs q))"
        by (auto simp add: Q''_def Cons q)
      have mn2: "minNode (trees s2 u) = None \<and> amin \<in> (\<Union>q\<in>set Q''. set (addrs q))
                 \<or> minNode (trees s2 u) = Some amin"
        using mn'_cases mn un by (auto simp add: s2_def)
      have mx2: "maxNode (trees s2 u) = None \<and> amax \<in> (\<Union>q\<in>set Q''. set (addrs q))
                 \<or> maxNode (trees s2 u) = Some amax"
        using mx'_cases mx un by (auto simp add: s2_def)
      have "copyScan (Some u) minI maxI (map root_ptr Q'') s2
              = Some (Inr ((), cached u (Some amin) (Some amax) s2))"
        by (rule less.hyps[OF size items2 Q2 mn2 mx2])
      hence "copyScan (Some u) minI maxI (map root_ptr Q'') s2
               = Some (Inr ((), cached u (Some amin) (Some amax) s))"
        by (simp add: s2_def cached_cached)
      thus ?thesis unfolding step using False by auto
    qed
  qed
qed


subsection \<open>The copy of a tree is a tree of its own\<close>

text \<open>The items of the tree of shape \<open>sh\<close>, in order.\<close>

definition contents :: "heap \<Rightarrow> shape \<Rightarrow> Item list" where
  "contents s sh = map (\<lambda>a. item (nodes s a)) (addrs sh)"

lemma keys_contents: "map (key_of s) (addrs sh) = map Key (contents s sh)"
  by (simp add: contents_def key_of_def)

lemma contents_cong:
  "(\<And>a. a \<in> set (addrs sh) \<Longrightarrow> nodes s' a = nodes s a) \<Longrightarrow> contents s' sh = contents s sh"
  by (simp add: contents_def)

lemma sorted_sless_distinct: "sorted_wrt (\<lambda>x y. x <s y) (xs :: go_int list) \<Longrightarrow> distinct xs"
  by (induction xs) auto

lemma Copy_correct:
  assumes rep: "tree_rep s t sh" and ne: "sh \<noteq> Leaf"
  shows "\<exists>s'. Copy (Some t) s = Some (Inr (Some (tree_top s), s'))
           \<and> tree_rep s' t sh \<and> contents s' sh = contents s sh
           \<and> tree_rep s' (tree_top s) (relabel sh (node_top s))
           \<and> contents s' (relabel sh (node_top s)) = contents s sh
           \<and> count (trees s' (tree_top s)) = count (trees s t)"
proof -
  define k where "k = node_top s"
  define u where "u = tree_top s"
  define C where "C = relabel sh k"
  obtain l a r where sh: "sh = Node l a r" using ne by (cases sh) auto
  have nonempty: "addrs sh \<noteq> []" using sh by simp
  have tu: "t < u" and shape: "shape_at s (RBTree.root (trees s t)) None sh"
    and dist: "distinct (addrs sh)"
    and alloc: "\<forall>b\<in>set (addrs sh). 0 < b \<and> b < k"
    and srt: "sorted_wrt (\<lambda>x y. x <s y) (map (key_of s) (addrs sh))"
    and mn: "minNode (trees s t) = Some (hd (addrs sh))"
    and mx: "maxNode (trees s t) = Some (last (addrs sh))"
    and cnt: "count (trees s t) = of_nat (length (addrs sh))"
    using rep nonempty by (simp_all add: tree_rep_def list_all_iff k_def u_def)
  have root: "RBTree.root (trees s t) = Some a" using shape_at_root[OF shape] sh by simp
  have kpos: "0 < k" using alloc sh by fastforce
  define minI where "minI = item (nodes s (hd (addrs sh)))"
  define maxI where "maxI = item (nodes s (last (addrs sh)))"
  have alloc': "\<forall>b\<in>set (addrs sh). b < node_top s" using alloc by (simp add: k_def)
  have shape': "shape_at s (Some a) None sh" using shape root by simp
  obtain s1 where g6: "copy (Some a) s = Some (Inr (Some k, s1))" and cp: "copied sh None s s1"
    using copy_correct[OF shape' ne alloc'] by (auto simp add: k_def)
  have top1: "node_top s1 = k + length (addrs sh)" and tr1: "trees s1 = trees s"
    and tt1: "tree_top s1 = u" and old1: "\<And>b. b < k \<Longrightarrow> nodes s1 b = nodes s b"
    and sh1: "shape_at s1 (Some k) None C"
    and it1: "contents s1 C = contents s sh"
    using cp ne unfolding copied_def contents_def C_def k_def u_def
    by (simp_all add: root_ptr_relabel)
  define T0 where "T0 = zero_tree\<lparr>RBTree.root := Some k, count := count (trees s t)\<rparr>"
  define s2 where "s2 = s1\<lparr>trees := (trees s1)(u := T0), tree_top := u + 1\<rparr>"
  define amin where "amin = hd (addrs C)"
  define amax where "amax = last (addrs C)"
  define s3 where "s3 = cached u (Some amin) (Some amax) s2"
  have Cne: "addrs C \<noteq> []" using sh by (simp add: C_def)
  have inC: "amin \<in> set (addrs C)" "amax \<in> set (addrs C)"
    using Cne by (simp_all add: amin_def amax_def)
  have Cshape: "C = Node (relabel l (Suc k)) k (relabel r (Suc k + length (addrs l)))"
    by (simp add: C_def sh)
  (* the items of a tree are distinct: the scan finds the ends *)
  have it2: "contents s2 C = contents s sh"
    using it1 by (simp add: contents_def s2_def)
  have "distinct (map Key (contents s sh))"
    using sorted_sless_distinct[OF srt] by (simp add: keys_contents)
  hence "distinct (contents s2 C)" using it2 by (simp add: distinct_map)
  hence inj: "inj_on (\<lambda>b. item (nodes s2 b)) (set (addrs C))"
    by (simp add: contents_def distinct_map)
  have "minI = hd (contents s sh)" using nonempty by (simp add: minI_def contents_def hd_map)
  also have "\<dots> = hd (contents s2 C)" by (simp only: it2)
  also have "\<dots> = item (nodes s2 amin)" using Cne by (simp add: contents_def hd_map amin_def)
  finally have minI: "minI = item (nodes s2 amin)" .
  have "maxI = last (contents s sh)" using nonempty by (simp add: maxI_def contents_def last_map)
  also have "\<dots> = last (contents s2 C)" by (simp only: it2)
  also have "\<dots> = item (nodes s2 amax)" using Cne by (simp add: contents_def last_map amax_def)
  finally have maxI: "maxI = item (nodes s2 amax)" .
  have items: "\<forall>b\<in>set (addrs C). (item (nodes s2 b) = minI \<longleftrightarrow> b = amin)
                                 \<and> (item (nodes s2 b) = maxI \<longleftrightarrow> b = amax)"
    using inj inC unfolding minI maxI by (auto dest: inj_onD)
  have link: "linked s2 C"
    using shape_at_linked[OF sh1] linked_cong[of s2 s1 C] by (simp add: s2_def)
  have Q: "\<forall>q\<in>set [C]. q \<noteq> Leaf \<and> linked s2 q \<and> set (addrs q) \<subseteq> set (addrs C)"
    using link Cshape by simp
  have hdr2: "trees s2 u = T0" by (simp add: s2_def)
  have mn2: "minNode (trees s2 u) = None \<and> amin \<in> (\<Union>q\<in>set [C]. set (addrs q))
             \<or> minNode (trees s2 u) = Some amin"
    using inC by (simp add: hdr2 T0_def zero_tree_def)
  have mx2: "maxNode (trees s2 u) = None \<and> amax \<in> (\<Union>q\<in>set [C]. set (addrs q))
             \<or> maxNode (trees s2 u) = Some amax"
    using inC by (simp add: hdr2 T0_def zero_tree_def)
  have "copyScan (Some u) minI maxI (map root_ptr [C]) s2 = Some (Inr ((), s3))"
    unfolding s3_def by (rule copyScan_correct[OF items Q mn2 mx2])
  hence g9: "copyScan (Some u) minI maxI [Some k] s2 = Some (Inr ((), s3))"
    by (simp add: Cshape)
  (* the run of Copy *)
  have g1: "get_minNode (Some t) s = Some (Inr (Some (hd (addrs sh)), s))"
    by (simp add: get_minNode_def get_tree_def bind_def ret_def mn)
  have g2: "get_item (Some (hd (addrs sh))) s = Some (Inr (minI, s))"
    by (simp add: get_item_def get_node_def bind_def ret_def minI_def)
  have g3: "get_maxNode (Some t) s = Some (Inr (Some (last (addrs sh)), s))"
    by (simp add: get_maxNode_def get_tree_def bind_def ret_def mx)
  have g4: "get_item (Some (last (addrs sh))) s = Some (Inr (maxI, s))"
    by (simp add: get_item_def get_node_def bind_def ret_def maxI_def)
  have g5: "get_root (Some t) s = Some (Inr (Some a, s))"
    by (simp add: get_root_def get_tree_def bind_def ret_def root)
  have g7: "get_count (Some t) s1 = Some (Inr (count (trees s t), s1))"
    by (simp add: get_count_def get_tree_def bind_def ret_def tr1)
  have g8: "new_tree T0 s1 = Some (Inr (Some u, s2))"
    by (simp add: new_tree_def s2_def tt1)
  have run: "Copy (Some t) s = Some (Inr (Some u, s3))"
    unfolding Copy_def
    apply (simp only: bind_step[of "get_minNode (Some t)" s "Some (hd (addrs sh))" s, OF g1])
    apply (simp only: bind_step[of "get_item (Some (hd (addrs sh)))" s minI s, OF g2])
    apply (simp only: bind_step[of "get_maxNode (Some t)" s "Some (last (addrs sh))" s, OF g3])
    apply (simp only: bind_step[of "get_item (Some (last (addrs sh)))" s maxI s, OF g4])
    apply (simp only: bind_step[of "get_root (Some t)" s "Some a" s, OF g5])
    apply (simp only: bind_step[of "copy (Some a)" s "Some k" s1, OF g6])
    apply (simp only: bind_step[of "get_count (Some t)" s1 "count (trees s t)" s1, OF g7])
    apply (simp only: T0_def[symmetric] bind_step[of "new_tree T0" s1 "Some u" s2, OF g8])
    apply (simp only: bind_step[of "copyScan (Some u) minI maxI [Some k]" s2 "()" s3, OF g9] ret_def)
    done
  (* the heap after it *)
  have nodes3: "nodes s3 = nodes s1" by (simp add: s3_def s2_def)
  have top3: "node_top s3 = k + length (addrs sh)" using top1 by (simp add: s3_def s2_def)
  have tt3: "tree_top s3 = u + 1" by (simp add: s3_def s2_def)
  have hdr3t: "trees s3 t = trees s t" using tu tr1 by (simp add: s3_def s2_def)
  have root3: "RBTree.root (trees s3 u) = Some k" by (simp add: s3_def hdr2 T0_def)
  have cnt3: "count (trees s3 u) = count (trees s t)" by (simp add: s3_def hdr2 T0_def)
  have min3: "minNode (trees s3 u) = Some amin" and max3: "maxNode (trees s3 u) = Some amax"
    by (simp_all add: s3_def)
  have old3: "\<And>b. b \<in> set (addrs sh) \<Longrightarrow> nodes s3 b = nodes s b"
    using old1 alloc nodes3 by simp
  have cont_t: "contents s3 sh = contents s sh" using old3 by (rule contents_cong)
  have cont_u: "contents s3 C = contents s sh" using it1 nodes3 by (simp add: contents_def)
  have rep_t: "tree_rep s3 t sh"
  proof -
    have "shape_at s3 (RBTree.root (trees s t)) None sh = shape_at s (RBTree.root (trees s t)) None sh"
      using old3 by (rule shape_at_cong)
    moreover have "sorted_wrt (\<lambda>x y. x <s y) (map (key_of s3) (addrs sh))"
      using srt unfolding keys_contents cont_t .
    ultimately show ?thesis
      using rep tu alloc nonempty unfolding tree_rep_def hdr3t tt3 top3 list_all_iff
      by auto
  qed
  have rep_u: "tree_rep s3 u C"
  proof -
    have 1: "shape_at s3 (RBTree.root (trees s3 u)) None C"
    proof -
      have "shape_at s3 (Some k) None C = shape_at s1 (Some k) None C"
        using nodes3 by (intro shape_at_cong) simp
      thus ?thesis using sh1 root3 by simp
    qed
    have 2: "distinct (addrs C)" unfolding C_def by (rule distinct_addrs_relabel)
    have 3: "list_all (\<lambda>b. 0 < b \<and> b < node_top s3) (addrs C)"
      using kpos unfolding list_all_iff top3 C_def set_addrs_relabel by auto
    have 4: "sorted_wrt (\<lambda>x y. x <s y) (map (key_of s3) (addrs C))"
      using srt unfolding keys_contents cont_u .
    have 5: "count (trees s3 u) = of_nat (length (addrs C))"
      using cnt cnt3 by (simp add: C_def)
    show ?thesis
      unfolding tree_rep_def using 1 2 3 4 5 min3 max3 Cne tt3
      by (simp add: amin_def amax_def)
  qed
  show ?thesis
    using run rep_t cont_t rep_u cont_u cnt3
    unfolding u_def[symmetric] k_def[symmetric] C_def[symmetric] by blast
qed


text \<open>
  Within \<open>tree_rep\<close>, where the keys are in strict order: let \<open>t\<close> be a tree of shape
  \<open>sh\<close>, not empty. \<open>Copy\<close> returns a new tree \<open>u\<close>, at
  the address \<open>tree_top s\<close>, and leaves \<open>t\<close> as it is. The nodes of \<open>u\<close> are new, none is a
  node of \<open>t\<close>; its shape is the shape of \<open>t\<close> at these nodes, its items in order are
  those of \<open>t\<close>, its count is that of \<open>t\<close>, and its \<open>minNode\<close> and \<open>maxNode\<close> are the
  first and the last of its nodes in order, the copies of the first and the last node of
  \<open>t\<close>. After any sequence of \<open>Insert\<close>, \<open>DeleteWithKey\<close> and \<open>DeleteWithIterator\<close> that
  return on one of the two trees, the iterators of the deletions at nodes of that tree, the
  other tree has its shape, its items and its \<open>Len\<close> of before.
\<close>

lemma Copy_deep:
  assumes "tree_rep s t sh" and "sh \<noteq> Leaf"
  shows "\<exists>s'. Copy (Some t) s = Some (Inr (Some (tree_top s), s'))
           \<and> tree_top s \<noteq> t
           \<and> tree_rep s' t sh \<and> contents s' sh = contents s sh
           \<and> tree_rep s' (tree_top s) (relabel sh (node_top s))
           \<and> contents s' (relabel sh (node_top s)) = contents s sh
           \<and> count (trees s' (tree_top s)) = count (trees s t)
           \<and> set (addrs (relabel sh (node_top s))) \<inter> set (addrs sh) = {}
           \<and> minNode (trees s' (tree_top s)) = Some (hd (addrs (relabel sh (node_top s))))
           \<and> maxNode (trees s' (tree_top s)) = Some (last (addrs (relabel sh (node_top s))))
           \<and> (\<forall>ms s''. mutations (Some t) (set (addrs sh)) ms s' = Some s'' \<longrightarrow>
                  tree_rep s'' (tree_top s) (relabel sh (node_top s))
                  \<and> contents s'' (relabel sh (node_top s)) = contents s sh
                  \<and> Len (Some (tree_top s)) s'' = Some (Inr (count (trees s t), s'')))
           \<and> (\<forall>ms s''. mutations (Some (tree_top s)) (set (addrs (relabel sh (node_top s)))) ms s'
                          = Some s'' \<longrightarrow>
                  tree_rep s'' t sh
                  \<and> contents s'' sh = contents s sh
                  \<and> Len (Some t) s'' = Some (Inr (count (trees s t), s'')))"
proof -
  let ?u = "tree_top s" and ?C = "relabel sh (node_top s)"
  obtain s' where run: "Copy (Some t) s = Some (Inr (Some ?u, s'))"
    and rep_t: "tree_rep s' t sh" and cont_t: "contents s' sh = contents s sh"
    and rep_u: "tree_rep s' ?u ?C" and cont_u: "contents s' ?C = contents s sh"
    and cnt_u: "count (trees s' ?u) = count (trees s t)"
    using Copy_correct[OF assms] by blast
  have ne: "?u \<noteq> t" using assms(1) by (auto simp add: tree_rep_def)
  have Cne: "addrs ?C \<noteq> []" using assms(2) by (cases sh) simp_all
  have ends: "minNode (trees s' ?u) = Some (hd (addrs ?C))" "maxNode (trees s' ?u) = Some (last (addrs ?C))"
    using rep_u Cne by (simp_all add: tree_rep_def)
  have "\<forall>b\<in>set (addrs sh). b < node_top s"
    using assms(1) by (simp add: tree_rep_def list_all_iff)
  hence disj: "set (addrs ?C) \<inter> set (addrs sh) = {}"
    by (auto simp add: set_addrs_relabel)
  have cnt_t: "count (trees s' t) = count (trees s t)"
    using rep_t assms(1) by (simp add: tree_rep_def)
  have on_t: "tree_rep s'' ?u ?C \<and> contents s'' ?C = contents s sh
              \<and> Len (Some ?u) s'' = Some (Inr (count (trees s t), s''))"
    if "mutations (Some t) (set (addrs sh)) ms s' = Some s''" for ms s''
  proof -
    note other = mutations_other_tree[OF rep_t rep_u ne disj that]
    have "contents s'' ?C = contents s' ?C" using other(3) by (intro contents_cong) simp
    thus ?thesis
      using other(1,2) cont_u cnt_u
      by (simp add: Len_def get_count_def get_tree_def bind_def ret_def)
  qed
  have disj': "set (addrs sh) \<inter> set (addrs ?C) = {}" using disj by blast
  have on_u: "tree_rep s'' t sh \<and> contents s'' sh = contents s sh
              \<and> Len (Some t) s'' = Some (Inr (count (trees s t), s''))"
    if "mutations (Some ?u) (set (addrs ?C)) ms s' = Some s''" for ms s''
  proof -
    note other = mutations_other_tree[OF rep_u rep_t ne[symmetric] disj' that]
    have "contents s'' sh = contents s' sh" using other(3) by (intro contents_cong) simp
    thus ?thesis
      using other(1,2) cont_t cnt_t
      by (simp add: Len_def get_count_def get_tree_def bind_def ret_def)
  qed
  show ?thesis
    using run ne rep_t cont_t rep_u cont_u cnt_u disj ends on_t on_u by blast
qed

text \<open>
  The tree 0 with the keys 1 and 2 and its copy, the tree 1 at the nodes 3 and 4; an
  insertion and a deletion on the tree 0, and a deletion and an insertion on the tree 1.
\<close>

definition copy_heap :: heap where
  "copy_heap = heap_after (Copy (Some 0)) (heap_after insert_1_2 init_heap)"

definition on_original :: "mutation list" where
  "on_original = [InsertItem \<lparr>Key = 3, Value = 30\<rparr>, DeleteKey 1]"

definition on_copy :: "mutation list" where
  "on_copy = [DeleteAt \<lparr>Iterator.root = Some 1, node = Some 3\<rparr>, InsertItem \<lparr>Key = 0, Value = 5\<rparr>]"

lemma insert_1_2_tops:
  "node_top (heap_after insert_1_2 init_heap) = 3" "tree_top (heap_after insert_1_2 init_heap) = 1"
  by code_simp+

lemma on_original_returns:
  "mutations (Some 0) (set (addrs (Node Leaf 1 (Node Leaf 2 Leaf)))) on_original copy_heap \<noteq> None"
  by code_simp

lemma on_copy_returns:
  "mutations (Some 1) (set (addrs (Node Leaf 3 (Node Leaf 4 Leaf)))) on_copy copy_heap \<noteq> None"
  by code_simp

lemma relabel_1_2: "relabel (Node Leaf 1 (Node Leaf 2 Leaf)) 3 = Node Leaf 3 (Node Leaf 4 Leaf)"
  by simp

lemma Copy_deep_witness:
  "tree_rep (heap_after insert_1_2 init_heap) 0 (Node Leaf 1 (Node Leaf 2 Leaf))
   \<and> Node Leaf 1 (Node Leaf 2 Leaf) \<noteq> Leaf
   \<and> Copy (Some 0) (heap_after insert_1_2 init_heap) = Some (Inr (Some 1, copy_heap))
   \<and> tree_rep copy_heap 1 (Node Leaf 3 (Node Leaf 4 Leaf))
   \<and> contents copy_heap (Node Leaf 3 (Node Leaf 4 Leaf))
       = contents (heap_after insert_1_2 init_heap) (Node Leaf 1 (Node Leaf 2 Leaf))
   \<and> mutations (Some 0) (set (addrs (Node Leaf 1 (Node Leaf 2 Leaf)))) on_original copy_heap \<noteq> None
   \<and> tree_rep (the (mutations (Some 0) (set (addrs (Node Leaf 1 (Node Leaf 2 Leaf))))
                      on_original copy_heap)) 1 (Node Leaf 3 (Node Leaf 4 Leaf))
   \<and> mutations (Some 1) (set (addrs (Node Leaf 3 (Node Leaf 4 Leaf)))) on_copy copy_heap \<noteq> None
   \<and> tree_rep (the (mutations (Some 1) (set (addrs (Node Leaf 3 (Node Leaf 4 Leaf))))
                      on_copy copy_heap)) 0 (Node Leaf 1 (Node Leaf 2 Leaf))"
proof -
  let ?h = "heap_after insert_1_2 init_heap"
  have ne: "Node Leaf 1 (Node Leaf 2 Leaf) \<noteq> Leaf" by simp
  from Copy_deep[OF insert_1_2_rep ne, unfolded insert_1_2_tops relabel_1_2]
  obtain s' where run: "Copy (Some 0) ?h = Some (Inr (Some 1, s'))"
    and rep: "tree_rep s' 1 (Node Leaf 3 (Node Leaf 4 Leaf))"
    and cont: "contents s' (Node Leaf 3 (Node Leaf 4 Leaf)) = contents ?h (Node Leaf 1 (Node Leaf 2 Leaf))"
    and on_t: "\<And>ms s''. mutations (Some 0) (set (addrs (Node Leaf 1 (Node Leaf 2 Leaf)))) ms s' = Some s''
                 \<Longrightarrow> tree_rep s'' 1 (Node Leaf 3 (Node Leaf 4 Leaf))"
    and on_u: "\<And>ms s''. mutations (Some 1) (set (addrs (Node Leaf 3 (Node Leaf 4 Leaf)))) ms s' = Some s''
                 \<Longrightarrow> tree_rep s'' 0 (Node Leaf 1 (Node Leaf 2 Leaf))"
    by blast
  have s': "s' = copy_heap" using run by (simp add: copy_heap_def heap_after_def)
  show ?thesis
    using insert_1_2_rep run rep cont on_original_returns on_copy_returns
      on_t[of on_original] on_u[of on_copy] unfolding s'
    by auto
qed


subsection \<open>The copy of a tree that holds an item twice\<close>

text \<open>
  From the empty tree: \<open>Insert\<close> of the keys \<open>-2^63\<close>, \<open>-2^62 - 1\<close> and \<open>0\<close>, then
  \<open>DeleteWithKey\<close> of \<open>-2^63\<close>, then \<open>Insert\<close> of \<open>-2^62 - 1\<close> again, each item with the
  value 0. The comparison of \<open>doInsert\<close> wraps at the key \<open>0\<close> against \<open>-2^63\<close>, and after
  the deletion the last \<open>Insert\<close> does not meet the node that holds its key.
\<close>

definition insert_duplicate :: "tree_ptr prog" where
  "insert_duplicate =
     bind newRBTree (\<lambda>t.
     bind (Insert t \<lparr>Key = - 9223372036854775808, Value = 0\<rparr>) (\<lambda>r1.
     bind (Insert t \<lparr>Key = - 4611686018427387905, Value = 0\<rparr>) (\<lambda>r2.
     bind (Insert t \<lparr>Key = 0, Value = 0\<rparr>) (\<lambda>r3.
     bind (DeleteWithKey t (- 9223372036854775808)) (\<lambda>r4.
     bind (Insert t \<lparr>Key = - 4611686018427387905, Value = 0\<rparr>) (\<lambda>r5.
     ret t))))))"

text \<open>
  C5 fails on the code. The tree 0 built above has the nodes 4, 3, 2 in order, with the keys
  \<open>-2^62 - 1, 0, -2^62 - 1\<close>: its first and its last node hold the same item. \<open>minNode\<close> is
  the first node, 4, and \<open>maxNode\<close> the last, 2. \<open>Copy\<close> returns the tree 1 with the nodes
  6, 5, 7 in order, the copies of 4, 3, 2, and the same items in order; its scan meets the
  node 6 first and caches it as \<open>minNode\<close> and as \<open>maxNode\<close>: the \<open>maxNode\<close> of the copy
  is the copy of the minimum node of the tree, not the copy 7 of its maximum node. \<open>Next\<close>
  from \<open>Max\<close> is the \<open>Limit\<close> iterator on the tree and the iterator at the node 5 on the
  copy.
\<close>

theorem Copy_caches_wrong_end:
  "returns insert_duplicate init_heap
     (\<lambda>t s. t = Some 0
        \<and> shape_at s (RBTree.root (trees s 0)) None (Node (Node Leaf 4 Leaf) 3 (Node Leaf 2 Leaf))
        \<and> map (\<lambda>a. sint (key_of s a)) (addrs (Node (Node Leaf 4 Leaf) 3 (Node Leaf 2 Leaf)))
            = [- 4611686018427387905, 0, - 4611686018427387905]
        \<and> minNode (trees s 0) = Some 4 \<and> maxNode (trees s 0) = Some 2
        \<and> count (trees s 0) = 3 \<and> node_top s = 5
        \<and> returns (bind (Max_iter (Some 0)) Next) s (\<lambda>iter s'. iter = Limit (Some 0))
        \<and> returns (Copy (Some 0)) s
             (\<lambda>u s'. u = Some 1
                \<and> relabel (Node (Node Leaf 4 Leaf) 3 (Node Leaf 2 Leaf)) (node_top s)
                    = Node (Node Leaf 6 Leaf) 5 (Node Leaf 7 Leaf)
                \<and> shape_at s' (RBTree.root (trees s' 1)) None
                     (Node (Node Leaf 6 Leaf) 5 (Node Leaf 7 Leaf))
                \<and> contents s' (Node (Node Leaf 6 Leaf) 5 (Node Leaf 7 Leaf))
                    = contents s (Node (Node Leaf 4 Leaf) 3 (Node Leaf 2 Leaf))
                \<and> count (trees s' 1) = 3
                \<and> minNode (trees s' 1) = Some 6
                \<and> maxNode (trees s' 1) = Some 6
                \<and> returns (bind (Max_iter (Some 1)) Next) s'
                     (\<lambda>iter s''. iter = \<lparr>Iterator.root = Some 1, node = Some 5\<rparr>)))"
  by code_simp

end
